theory Spec2Isabelle
  imports
    Main
    "HOL-Library.Sublist"
    "HOL-Library.Char_ord"
    "HOL-Library.List_Lexorder"
    "HOL-Library.Product_Lexorder"
    "HOL-Library.Multiset"
begin

section \<open>cgraph2dot: graph extraction, classification and comparison\<close>

text \<open>
  The development embeds the two Python programs of the repository:
  \<^item> \<^verbatim>\<open>dot2interactive.py\<close>: \<^verbatim>\<open>parse_dot_file\<close>, which extracts nodes, edges and the
    \<^verbatim>\<open>calls_map\<close> from the text of a DOT file and annotates them for the renderer;
  \<^item> \<^verbatim>\<open>tests/dotdiff.py\<close>: \<^verbatim>\<open>parse_dot_file\<close>, \<^verbatim>\<open>compare_dot_files\<close> and \<^verbatim>\<open>main\<close>,
    the structural comparator.

  A Python \<^verbatim>\<open>str\<close> is modelled as a \<^typ>\<open>string\<close>, one \<^typ>\<open>char\<close> for each code point, for
  texts over the code points 0 to 255. Python compares strings code point by code point and
  tuples component by component, which is the lexicographic order of \<^typ>\<open>string\<close> and of
  pairs used here.
\<close>

subsection \<open>The two regular expressions\<close>

text \<open>
  Both programs scan the text with
  \<^verbatim>\<open>node_pattern = r'"([^"]+)"\s*\[label="([^"]+)"\]'\<close> and
  \<^verbatim>\<open>edge_pattern = r'"([^"]+)"\s*->\s*"([^"]+)"'\<close>.
  In either pattern each repetition is followed by a character that the repetition cannot
  consume (a quote after \<^verbatim>\<open>[^"]+\<close>; an opening bracket, a minus sign or a quote after
  \<^verbatim>\<open>\s*\<close>), so the greedy choice is the only one that can succeed and a match at a given
  position is unique: the matchers below take the longest run and never backtrack.
\<close>

definition dquote :: char where
  "dquote = CHR 0x22"

definition is_space :: "char \<Rightarrow> bool" where
  \<comment> \<open>\<^verbatim>\<open>\s\<close> of a \<^verbatim>\<open>str\<close> pattern: the code points below 256 for which \<^verbatim>\<open>str.isspace\<close> holds.\<close>
  "is_space c \<longleftrightarrow>
     c \<in> {CHR 0x09, CHR 0x0A, CHR 0x0B, CHR 0x0C, CHR 0x0D,
          CHR 0x1C, CHR 0x1D, CHR 0x1E, CHR 0x1F, CHR 0x20, CHR 0x85, CHR 0xA0}"

definition not_quote :: "char \<Rightarrow> bool" where
  "not_quote c \<longleftrightarrow> c \<noteq> dquote"

definition skip_spaces :: "string \<Rightarrow> string" where
  \<comment> \<open>\<^verbatim>\<open>\s*\<close>\<close>
  "skip_spaces s = dropWhile is_space s"

definition lit :: "string \<Rightarrow> string \<Rightarrow> string option" where
  \<comment> \<open>a literal piece of a pattern: the text left after it, if the text starts with it\<close>
  "lit p s = (if prefix p s then Some (drop (length p) s) else None)"

definition quoted :: "string \<Rightarrow> (string \<times> string) option" where
  \<comment> \<open>\<^verbatim>\<open>"([^"]+)"\<close> at the head of the text: the captured group and the text after the closing quote\<close>
  "quoted s =
     (case s of
        [] \<Rightarrow> None
      | c # r \<Rightarrow>
          if c \<noteq> dquote then None
          else
            let g = takeWhile not_quote r in
            if g = [] then None
            else (case dropWhile not_quote r of
                    [] \<Rightarrow> None
                  | _ # r' \<Rightarrow> Some (g, r')))"

definition match_node :: "string \<Rightarrow> ((string \<times> string) \<times> string) option" where
  \<comment> \<open>\<^verbatim>\<open>node_pattern\<close> at the head of the text: (group 1, group 2) and the text after the match\<close>
  "match_node s =
     (case quoted s of
        None \<Rightarrow> None
      | Some (node_id, r1) \<Rightarrow>
          (case lit ''[label='' (skip_spaces r1) of
             None \<Rightarrow> None
           | Some r2 \<Rightarrow>
               (case quoted r2 of
                  None \<Rightarrow> None
                | Some (node_label, r3) \<Rightarrow>
                    (case lit '']'' r3 of
                       None \<Rightarrow> None
                     | Some r4 \<Rightarrow> Some ((node_id, node_label), r4)))))"

definition match_edge :: "string \<Rightarrow> ((string \<times> string) \<times> string) option" where
  \<comment> \<open>\<^verbatim>\<open>edge_pattern\<close> at the head of the text\<close>
  "match_edge s =
     (case quoted s of
        None \<Rightarrow> None
      | Some (source, r1) \<Rightarrow>
          (case lit ''->'' (skip_spaces r1) of
             None \<Rightarrow> None
           | Some r2 \<Rightarrow>
               (case quoted (skip_spaces r2) of
                  None \<Rightarrow> None
                | Some (target, r3) \<Rightarrow> Some ((source, target), r3))))"

lemma quoted_shorter: "quoted s = Some (g, r) \<Longrightarrow> length r < length s"
proof -
  assume q: "quoted s = Some (g, r)"
  then obtain c t where s: "s = c # t"
    by (cases s) (auto simp: quoted_def)
  from q s obtain d where d: "dropWhile not_quote t = d # r"
    by (auto simp: quoted_def Let_def split: if_splits list.splits)
  have "length (dropWhile not_quote t) \<le> length t"
    by (rule length_dropWhile_le)
  with d s show ?thesis by simp
qed

lemma lit_shorter: "lit p s = Some r \<Longrightarrow> length r \<le> length s"
  by (auto simp: lit_def split: if_splits)

lemma skip_spaces_shorter: "length (skip_spaces s) \<le> length s"
  by (simp add: skip_spaces_def length_dropWhile_le)

lemma match_node_shorter:
  assumes "match_node s = Some (x, r)"
  shows "length r < length s"
proof -
  from assms obtain i r1 r2 l r3 where
    q1: "quoted s = Some (i, r1)" and
    l1: "lit ''[label='' (skip_spaces r1) = Some r2" and
    q2: "quoted r2 = Some (l, r3)" and
    l2: "lit '']'' r3 = Some r"
    by (auto simp: match_node_def split: option.splits prod.splits)
  from q1 have "length r1 < length s" by (rule quoted_shorter)
  moreover from l1 have "length r2 \<le> length (skip_spaces r1)" by (rule lit_shorter)
  moreover have "length (skip_spaces r1) \<le> length r1" by (rule skip_spaces_shorter)
  moreover from q2 have "length r3 < length r2" by (rule quoted_shorter)
  moreover from l2 have "length r \<le> length r3" by (rule lit_shorter)
  ultimately show ?thesis by linarith
qed

lemma match_edge_shorter:
  assumes "match_edge s = Some (x, r)"
  shows "length r < length s"
proof -
  from assms obtain a r1 r2 b where
    q1: "quoted s = Some (a, r1)" and
    l1: "lit ''->'' (skip_spaces r1) = Some r2" and
    q2: "quoted (skip_spaces r2) = Some (b, r)"
    by (auto simp: match_edge_def split: option.splits prod.splits)
  from q1 have "length r1 < length s" by (rule quoted_shorter)
  moreover from l1 have "length r2 \<le> length (skip_spaces r1)" by (rule lit_shorter)
  moreover have "length (skip_spaces r1) \<le> length r1" by (rule skip_spaces_shorter)
  moreover from q2 have "length r < length (skip_spaces r2)" by (rule quoted_shorter)
  moreover have "length (skip_spaces r2) \<le> length r2" by (rule skip_spaces_shorter)
  ultimately show ?thesis by linarith
qed

text \<open>
  \<^verbatim>\<open>re.finditer\<close> yields the non-overlapping matches from left to right: it tries the
  pattern at the current position, resumes after a match and one character further after
  a failure. Neither pattern matches the empty string, so nothing is found at the end of
  the text.
\<close>

function finditer_node :: "string \<Rightarrow> (string \<times> string) list" where
  "finditer_node [] = []"
| "finditer_node (c # cs) =
     (case match_node (c # cs) of
        None \<Rightarrow> finditer_node cs
      | Some (m, rest) \<Rightarrow> m # finditer_node rest)"
  by pat_completeness auto
termination
  by (relation "measure length") (auto dest: match_node_shorter)

function finditer_edge :: "string \<Rightarrow> (string \<times> string) list" where
  "finditer_edge [] = []"
| "finditer_edge (c # cs) =
     (case match_edge (c # cs) of
        None \<Rightarrow> finditer_edge cs
      | Some (m, rest) \<Rightarrow> m # finditer_edge rest)"
  by pat_completeness auto
termination
  by (relation "measure length") (auto dest: match_edge_shorter)


subsection \<open>\<^verbatim>\<open>dot2interactive.py\<close>: extraction for the renderer\<close>

text \<open>
  The exceptions that the two programs can meet, and the file system as \<^verbatim>\<open>open\<close> and
  \<^verbatim>\<open>Path.exists\<close> see it: a path names nothing, or a regular file whose bytes decode to a
  text, or something that exists and cannot be read as text (a directory, a file that the
  user may not read, a file whose bytes do not decode).
\<close>

datatype error =
    FileNotFoundError | IsADirectoryError | PermissionError | UnicodeDecodeError | KeyError

datatype entry = Text string | Directory | Denied | Undecodable

fun read_text :: "entry \<Rightarrow> error + string" where
  "read_text (Text content) = Inr content"
| "read_text Directory = Inl IsADirectoryError"
| "read_text Denied = Inl PermissionError"
| "read_text Undecodable = Inl UnicodeDecodeError"

definition open_read :: "(string \<rightharpoonup> entry) \<Rightarrow> string \<Rightarrow> error + string" where
  \<comment> \<open>\<^verbatim>\<open>with open(filename, 'r') as f: content = f.read()\<close>\<close>
  "open_read fs filename =
     (case fs filename of
        None \<Rightarrow> Inl FileNotFoundError
      | Some e \<Rightarrow> read_text e)"

text \<open>The dictionaries appended to \<^verbatim>\<open>nodes\<close> and \<^verbatim>\<open>edges\<close>, one field for each key
  (\<^verbatim>\<open>id\<close>, \<^verbatim>\<open>label\<close>, \<^verbatim>\<open>group\<close>, \<^verbatim>\<open>title\<close>; \<^verbatim>\<open>from\<close>, \<^verbatim>\<open>to\<close>, \<^verbatim>\<open>arrows\<close>).\<close>

record node =
  nd_id :: string
  nd_label :: string
  nd_group :: int
  nd_title :: string

record edge =
  ed_from :: string
  ed_to :: string
  ed_arrows :: string

text \<open>The local variables of \<^verbatim>\<open>parse_dot_file\<close>.\<close>

record parse_state =
  nodes :: "node list"
  edges :: "edge list"
  node_set :: "string set"
  calls_map :: "string \<rightharpoonup> string set"

definition categorize_node :: "string \<Rightarrow> int" where
  \<comment> \<open>the \<^verbatim>\<open>if\<close>/\<^verbatim>\<open>elif\<close> chain that sets \<^verbatim>\<open>group\<close>\<close>
  "categorize_node node_id =
     (if prefix ''__mod_'' node_id then 1
      else if prefix ''_gfortran_'' node_id
              \<or> node_id \<in> set [''malloc'', ''free'', ''memset'', ''memmove'', ''realloc''] then 2
      else if node_id \<in> set [''main'', ''MAIN__'', ''sqrt'', ''lround'', ''copysign''] then 3
      else 4)"

definition hint :: string where
  "hint = CHR 0x0A # ''Double-click to collapse/expand children''"

definition add_node :: "string \<times> string \<Rightarrow> parse_state \<Rightarrow> parse_state" where
  \<comment> \<open>the body of the loop over the matches of \<^verbatim>\<open>node_pattern\<close>\<close>
  "add_node m st =
     (case m of (node_id, node_label) \<Rightarrow>
        if node_id \<notin> node_set st then
          st\<lparr>node_set := insert node_id (node_set st),
             nodes := nodes st @
               [\<lparr>nd_id = node_id, nd_label = node_label,
                 nd_group = categorize_node node_id, nd_title = node_label @ hint\<rparr>],
             calls_map := (calls_map st)(node_id \<mapsto> {})\<rparr>
        else st)"

definition add_edge :: "string \<times> string \<Rightarrow> parse_state \<Rightarrow> error + parse_state" where
  \<comment> \<open>the body of the loop over the matches of \<^verbatim>\<open>edge_pattern\<close>; the subscript
      \<^verbatim>\<open>calls_map[source]\<close> raises \<^verbatim>\<open>KeyError\<close> on a missing key\<close>
  "add_edge m st =
     (case m of (source, target) \<Rightarrow>
        let st1 = st\<lparr>edges := edges st @
                    [\<lparr>ed_from = source, ed_to = target, ed_arrows = ''to''\<rparr>]\<rparr>
        in if source \<in> dom (calls_map st1) then
             (case calls_map st1 source of
                None \<Rightarrow> Inl KeyError
              | Some callees \<Rightarrow>
                  Inr (st1\<lparr>calls_map := (calls_map st1)(source \<mapsto> insert target callees)\<rparr>))
           else Inr st1)"

fun for_each :: "('a \<Rightarrow> 's \<Rightarrow> error + 's) \<Rightarrow> 'a list \<Rightarrow> 's \<Rightarrow> error + 's" where
  \<comment> \<open>a \<^verbatim>\<open>for\<close> loop whose body may raise: the first error ends it\<close>
  "for_each body [] st = Inr st"
| "for_each body (x # xs) st =
     (case body x st of Inl e \<Rightarrow> Inl e | Inr st' \<Rightarrow> for_each body xs st')"

definition init_state :: parse_state where
  "init_state = \<lparr>nodes = [], edges = [], node_set = {}, calls_map = Map.empty\<rparr>"

definition parse_dot_text ::
  "string \<Rightarrow> error + (node list \<times> edge list \<times> (string \<rightharpoonup> string set))" where
  \<comment> \<open>\<^verbatim>\<open>parse_dot_file\<close> from the point where \<^verbatim>\<open>content\<close> has been read\<close>
  "parse_dot_text content =
     (let st = fold add_node (finditer_node content) init_state
      in case for_each add_edge (finditer_edge content) st of
           Inl e \<Rightarrow> Inl e
         | Inr st' \<Rightarrow> Inr (nodes st', edges st', calls_map st'))"

definition parse_dot_file ::
  "(string \<rightharpoonup> entry) \<Rightarrow> string \<Rightarrow> error + (node list \<times> edge list \<times> (string \<rightharpoonup> string set))" where
  "parse_dot_file fs filename =
     (case open_read fs filename of
        Inl e \<Rightarrow> Inl e
      | Inr content \<Rightarrow> parse_dot_text content)"


subsection \<open>\<^verbatim>\<open>tests/dotdiff.py\<close>: the structural comparator\<close>

text \<open>The dictionary returned by the comparator's \<^verbatim>\<open>parse_dot_file\<close>, with its keys
  \<^verbatim>\<open>'nodes'\<close> and \<^verbatim>\<open>'edges'\<close>.\<close>

record graph =
  graph_nodes :: "(string \<times> string) set"
  graph_edges :: "(string \<times> string) set"

definition dotdiff_parse_text :: "string \<Rightarrow> graph" where
  \<comment> \<open>the comparator's \<^verbatim>\<open>parse_dot_file\<close> from the point where \<^verbatim>\<open>content\<close> has been read\<close>
  "dotdiff_parse_text content =
     \<lparr>graph_nodes =
        fold (\<lambda>(node_id, node_label) acc. insert (node_id, node_label) acc)
          (finditer_node content) {},
      graph_edges =
        fold (\<lambda>(from_node, to_node) acc. insert (from_node, to_node) acc)
          (finditer_edge content) {}\<rparr>"

text \<open>
  What the comparator does to its environment: \<open>files\<close> is the file system, \<open>opened\<close> lists
  the names handed to \<^verbatim>\<open>open\<close> so far and \<open>stdout\<close> the texts printed so far, one for each
  call of \<^verbatim>\<open>print\<close>. \<^verbatim>\<open>Path.exists\<close> holds of every path that names something, readable
  as text or not.
\<close>

record world =
  files :: "string \<rightharpoonup> entry"
  opened :: "string list"
  stdout :: "string list"

definition print :: "string \<Rightarrow> world \<Rightarrow> world" where
  "print text w = w\<lparr>stdout := stdout w @ [text]\<rparr>"

definition exists :: "string \<Rightarrow> world \<Rightarrow> bool" where
  "exists path w \<longleftrightarrow> path \<in> dom (files w)"

definition dotdiff_parse_dot_file :: "string \<Rightarrow> world \<Rightarrow> (error + graph) \<times> world" where
  "dotdiff_parse_dot_file filepath w =
     (let w1 = w\<lparr>opened := opened w @ [filepath]\<rparr>
      in case open_read (files w) filepath of
           Inl e \<Rightarrow> (Inl e, w1)
         | Inr content \<Rightarrow> (Inr (dotdiff_parse_text content), w1))"

fun str_nat :: "nat \<Rightarrow> string" where
  \<comment> \<open>the decimal digits of a length, as an f-string prints it\<close>
  "str_nat n =
     (if n < 10 then [''0123456789'' ! n]
      else str_nat (n div 10) @ [''0123456789'' ! (n mod 10)])"

fun join :: "string \<Rightarrow> string list \<Rightarrow> string" where
  \<comment> \<open>\<^verbatim>\<open>sep.join(xs)\<close>\<close>
  "join sep [] = []"
| "join sep [x] = x"
| "join sep (x # y # ys) = x @ sep @ join sep (y # ys)"

definition nodes_only_in_1 :: "graph \<Rightarrow> graph \<Rightarrow> (string \<times> string) set" where
  "nodes_only_in_1 graph1 graph2 = graph_nodes graph1 - graph_nodes graph2"

definition nodes_only_in_2 :: "graph \<Rightarrow> graph \<Rightarrow> (string \<times> string) set" where
  "nodes_only_in_2 graph1 graph2 = graph_nodes graph2 - graph_nodes graph1"

definition edges_only_in_1 :: "graph \<Rightarrow> graph \<Rightarrow> (string \<times> string) set" where
  "edges_only_in_1 graph1 graph2 = graph_edges graph1 - graph_edges graph2"

definition edges_only_in_2 :: "graph \<Rightarrow> graph \<Rightarrow> (string \<times> string) set" where
  "edges_only_in_2 graph1 graph2 = graph_edges graph2 - graph_edges graph1"

definition section_of ::
  "string \<Rightarrow> (string \<times> string \<Rightarrow> string) \<Rightarrow> (string \<times> string) set \<Rightarrow> string list" where
  \<comment> \<open>one \<^verbatim>\<open>if only_in: differences.append(heading); for ... in sorted(only_in): ...\<close> block;
      the elements of a set are distinct, so \<^verbatim>\<open>sorted\<close> can return one list only\<close>
  "section_of heading line only_in =
     (if only_in \<noteq> {} then heading # map line (sorted_list_of_set only_in) else [])"

definition differences :: "graph \<Rightarrow> graph \<Rightarrow> string list" where
  \<comment> \<open>the list \<^verbatim>\<open>differences\<close> of \<^verbatim>\<open>compare_dot_files\<close> when the comparison ends\<close>
  "differences graph1 graph2 =
     section_of ''Nodes only in reference file:''
       (\<lambda>(node_id, node_label). ''  - '' @ node_id @ '' [label='' @ node_label @ '']'')
       (nodes_only_in_1 graph1 graph2)
     @ section_of ''Nodes only in generated file:''
       (\<lambda>(node_id, node_label). ''  + '' @ node_id @ '' [label='' @ node_label @ '']'')
       (nodes_only_in_2 graph1 graph2)
     @ section_of ''Edges only in reference file:''
       (\<lambda>(from_node, to_node). ''  - '' @ from_node @ '' -> '' @ to_node)
       (edges_only_in_1 graph1 graph2)
     @ section_of ''Edges only in generated file:''
       (\<lambda>(from_node, to_node). ''  + '' @ from_node @ '' -> '' @ to_node)
       (edges_only_in_2 graph1 graph2)"

definition counts_line :: "string \<Rightarrow> graph \<Rightarrow> string" where
  "counts_line name g =
     ''  '' @ name @ '': '' @ str_nat (card (graph_nodes g)) @ '' nodes, ''
       @ str_nat (card (graph_edges g)) @ '' edges'' @ [CHR 0x0A]"

definition compare_graphs :: "graph \<Rightarrow> graph \<Rightarrow> bool \<times> string" where
  \<comment> \<open>\<^verbatim>\<open>compare_dot_files\<close> from the point where both files have been parsed\<close>
  "compare_graphs graph1 graph2 =
     (let diffs = differences graph1 graph2;
          is_equal = (length diffs = 0);
          summary =
            (if is_equal then ''Graphs are structurally identical''
             else ''Graphs differ:'' @ [CHR 0x0A]
                  @ counts_line ''Reference'' graph1
                  @ counts_line ''Generated'' graph2
                  @ (if diffs \<noteq> []
                     then [CHR 0x0A] @ ''Differences:'' @ [CHR 0x0A] @ join [CHR 0x0A] diffs
                     else []))
      in (is_equal, summary))"

definition compare_dot_files ::
  "string \<Rightarrow> string \<Rightarrow> world \<Rightarrow> (error + bool \<times> string) \<times> world" where
  "compare_dot_files file1 file2 w =
     (case dotdiff_parse_dot_file file1 w of
        (Inl e, w1) \<Rightarrow> (Inl e, w1)
      | (Inr graph1, w1) \<Rightarrow>
          (case dotdiff_parse_dot_file file2 w1 of
             (Inl e, w2) \<Rightarrow> (Inl e, w2)
           | (Inr graph2, w2) \<Rightarrow> (Inr (compare_graphs graph1 graph2), w2)))"

definition main :: "(string \<Rightarrow> string) \<Rightarrow> string \<Rightarrow> string list \<Rightarrow> world \<Rightarrow> int \<times> world" where
  \<comment> \<open>\<^verbatim>\<open>sys.argv\<close> is \<open>argv0 # args\<close>; \<open>Path\<close> is the text of \<^verbatim>\<open>pathlib.Path(arg)\<close>, the
      name under which the file system knows the file; the result is the exit status, which
      is 1 when an exception leaves \<^verbatim>\<open>main\<close>\<close>
  "main Path argv0 args w =
     (case args of
        [arg1, arg2] \<Rightarrow>
          (let reference_file = Path arg1; generated_file = Path arg2
           in if \<not> exists reference_file w then
                (1, print (''Error: Reference file not found: '' @ reference_file) w)
              else if \<not> exists generated_file w then
                (1, print (''Error: Generated file not found: '' @ generated_file) w)
              else
                (case compare_dot_files reference_file generated_file w of
                   (Inl e, w') \<Rightarrow> (1, w')
                 | (Inr (is_equal, summary), w') \<Rightarrow>
                     (if is_equal then 0 else 1, print summary w')))
      | _ \<Rightarrow> (1, print (''Usage: '' @ argv0 @ '' <reference.dot> <generated.dot>'') w))"


subsection \<open>Sample inputs\<close>

text \<open>
  Small inputs on which the properties below are exercised: the example of the
  specification with one more edge whose source is never declared, a text that declares
  the same id twice, a text in which neither pattern matches, the first example with
  its declarations reordered and repeated, and a candidate that differs from the first
  example in a label and in its edges, with the report of their comparison.
\<close>

definition example_text :: string where
  "example_text =
     ''\"foo\" [label=\"foo\"]'' @ [CHR 0x0A] @
     ''\"bar\" [label=\"bar\"]'' @ [CHR 0x0A] @
     ''\"foo\" -> \"bar\"'' @ [CHR 0x0A] @
     ''\"ghost\" -> \"bar\"'' @ [CHR 0x0A]"

definition redeclared_text :: string where
  "redeclared_text =
     ''\"a\" [label=\"x\"]'' @ [CHR 0x0A] @
     ''\"a\" [label=\"y\"]'' @ [CHR 0x0A]"

definition unmatched_text :: string where
  "unmatched_text = ''graph G { \"a\" -- \"b\"; \"c\" [shape=box]; }''"

definition reordered_text :: string where
  "reordered_text =
     ''\"ghost\" -> \"bar\"'' @ [CHR 0x0A] @
     ''\"foo\" -> \"bar\"'' @ [CHR 0x0A] @
     ''\"bar\" [label=\"bar\"]'' @ [CHR 0x0A] @
     ''\"foo\" [label=\"foo\"]'' @ [CHR 0x0A] @
     ''\"bar\" [label=\"bar\"]'' @ [CHR 0x0A] @
     ''\"foo\" -> \"bar\"'' @ [CHR 0x0A]"

definition candidate_text :: string where
  "candidate_text =
     ''\"foo\" [label=\"FOO\"]'' @ [CHR 0x0A] @
     ''\"bar\" [label=\"bar\"]'' @ [CHR 0x0A] @
     ''\"foo\" -> \"baz\"'' @ [CHR 0x0A]"

definition example_report :: string where
  "example_report =
     ''Graphs differ:'' @ [CHR 0x0A] @
     ''  Reference: 2 nodes, 2 edges'' @ [CHR 0x0A] @
     ''  Generated: 2 nodes, 1 edges'' @ [CHR 0x0A] @
     [CHR 0x0A] @
     ''Differences:'' @ [CHR 0x0A] @
     ''Nodes only in reference file:'' @ [CHR 0x0A] @
     ''  - foo [label=foo]'' @ [CHR 0x0A] @
     ''Nodes only in generated file:'' @ [CHR 0x0A] @
     ''  + foo [label=FOO]'' @ [CHR 0x0A] @
     ''Edges only in reference file:'' @ [CHR 0x0A] @
     ''  - foo -> bar'' @ [CHR 0x0A] @
     ''  - ghost -> bar'' @ [CHR 0x0A] @
     ''Edges only in generated file:'' @ [CHR 0x0A] @
     ''  + foo -> baz''"

text \<open>A file system that holds the three comparable samples, a directory, a file whose
  bytes do not decode, and nothing else.\<close>

definition sample_world :: world where
  "sample_world =
     \<lparr>files = [''ref.dot'' \<mapsto> Text example_text, ''gen.dot'' \<mapsto> Text reordered_text,
               ''cand.dot'' \<mapsto> Text candidate_text, ''out'' \<mapsto> Directory,
               ''graph.png'' \<mapsto> Undecodable],
      opened = [], stdout = []\<rparr>"

subsection \<open>The order of the report\<close>

text \<open>
  The specification asks for the members of each difference category in a deterministic
  sort order, by id and then by label or target. This is that requirement on a list.
\<close>

definition listing :: "(string \<times> string) set \<Rightarrow> (string \<times> string) list \<Rightarrow> bool" where
  \<comment> \<open>the list holds each member of the set once, ordered by first component and then by
      second component\<close>
  "listing A xs \<longleftrightarrow>
     set xs = A \<and> distinct xs
     \<and> sorted_wrt (\<lambda>x y. fst x < fst y \<or> fst x = fst y \<and> snd x \<le> snd y) xs"

subsection \<open>The lines of an input file\<close>

text \<open>
  An input file is the text of its lines joined by newlines. The lines of the notation the
  extractor is written for are modelled as data: a node declaration
  \<^verbatim>\<open>"<id>" [label="<label>"]\<close>, an edge declaration \<^verbatim>\<open>"<source>" -> "<target>"\<close>, each with
  the text before and after it on its line, or any other line. Between the tokens of a
  declaration stands whatever the patterns accept there: any run of whitespace, none
  included, between the quoted id and the bracket and on either side of the arrow. Nothing
  has to follow a declaration on its line; a semicolon, or any other text without a double
  quote, may.

  A line is plain when the text around its declaration and every other line hold no double
  quote, and when every id and label is not empty, holds no double quote, and is neither
  the text \<^verbatim>\<open>[label=\<close>, with or without whitespace before it, nor the text \<^verbatim>\<open>->\<close>, with or
  without whitespace around it.
\<close>

definition nl :: string where
  "nl = [CHR 0x0A]"

definition quote_free :: "string \<Rightarrow> bool" where
  "quote_free s \<longleftrightarrow> dquote \<notin> set s"

definition spaces :: "string \<Rightarrow> bool" where
  \<comment> \<open>a text that \<^verbatim>\<open>\s*\<close> matches as a whole; it may be empty\<close>
  "spaces s \<longleftrightarrow> list_all is_space s"

definition ident :: "string \<Rightarrow> bool" where
  \<comment> \<open>a text between quotes that is neither \<^verbatim>\<open>[label=\<close>, whitespace before it set aside, nor
      \<^verbatim>\<open>->\<close>, whitespace around it set aside\<close>
  "ident s \<longleftrightarrow>
     s \<noteq> [] \<and> quote_free s \<and> skip_spaces s \<noteq> ''[label=''
     \<and> (case lit ''->'' (skip_spaces s) of None \<Rightarrow> True | Some r \<Rightarrow> skip_spaces r \<noteq> [])"

definition node_decl :: "string \<Rightarrow> string \<Rightarrow> string \<Rightarrow> string" where
  "node_decl i ws l = dquote # i @ dquote # ws @ ''[label='' @ dquote # l @ dquote # '']''"

definition edge_decl :: "string \<Rightarrow> string \<Rightarrow> string \<Rightarrow> string \<Rightarrow> string" where
  "edge_decl a ws1 ws2 b = dquote # a @ dquote # ws1 @ ''->'' @ ws2 @ dquote # b @ [dquote]"

datatype line =
    Node_line string string string string string
  | Edge_line string string string string string string
  | Other_line string

fun render :: "line \<Rightarrow> string" where
  "render (Node_line pre i ws l post) = pre @ node_decl i ws l @ post"
| "render (Edge_line pre a ws1 ws2 b post) = pre @ edge_decl a ws1 ws2 b @ post"
| "render (Other_line s) = s"

fun plain_line :: "line \<Rightarrow> bool" where
  "plain_line (Node_line pre i ws l post) \<longleftrightarrow>
     quote_free pre \<and> ident i \<and> spaces ws \<and> ident l \<and> quote_free post"
| "plain_line (Edge_line pre a ws1 ws2 b post) \<longleftrightarrow>
     quote_free pre \<and> ident a \<and> spaces ws1 \<and> spaces ws2 \<and> ident b \<and> quote_free post"
| "plain_line (Other_line s) \<longleftrightarrow> quote_free s"

fun nodes_of_line :: "line \<Rightarrow> (string \<times> string) list" where
  "nodes_of_line (Node_line pre i ws l post) = [(i, l)]"
| "nodes_of_line (Edge_line pre a ws1 ws2 b post) = []"
| "nodes_of_line (Other_line s) = []"

fun edges_of_line :: "line \<Rightarrow> (string \<times> string) list" where
  "edges_of_line (Node_line pre i ws l post) = []"
| "edges_of_line (Edge_line pre a ws1 ws2 b post) = [(a, b)]"
| "edges_of_line (Other_line s) = []"

definition safe :: "string \<Rightarrow> bool" where
  \<comment> \<open>after a quoted group, neither pattern goes on with this text\<close>
  "safe r \<longleftrightarrow>
     (case lit ''[label='' (skip_spaces r) of None \<Rightarrow> True | Some r2 \<Rightarrow> quoted r2 = None)
     \<and> (case lit ''->'' (skip_spaces r) of
          None \<Rightarrow> True
        | Some r2 \<Rightarrow> quoted (skip_spaces r2) = None)"

definition calm :: "string \<Rightarrow> bool" where
  \<comment> \<open>what follows the first quote of the text, if there is one, is safe\<close>
  "calm s \<longleftrightarrow> (case dropWhile not_quote s of [] \<Rightarrow> True | _ # r \<Rightarrow> safe r)"

definition settled :: "string \<Rightarrow> bool" where
  \<comment> \<open>the first quoted group of the text, if there is one, is not followed by a closing
      bracket\<close>
  "settled s \<longleftrightarrow>
     (case quoted (dropWhile not_quote s) of
        None \<Rightarrow> True
      | Some (g, r) \<Rightarrow> lit '']'' r = None)"


text \<open>
  A small file in this notation, with the three lines of the usual example among its
  lines, one declaration written without blanks and one with tabs; two lines that split
  one declaration; two declarations of which one has an arrow for its label; two
  declarations of which one has the text \<^verbatim>\<open>[label=\<close> for its target; and one declaration
  with an arrow for its label, to be written once or twice.
\<close>

definition sample_lines :: "line list" where
  "sample_lines =
     [Other_line ''digraph callgraph {'',
      Node_line [] ''foo'' '' '' ''foo'' [],
      Node_line ''  '' ''bar'' [] ''bar'' '';'',
      Edge_line [] ''foo'' '' '' '' '' ''bar'' [],
      Edge_line [CHR 0x09] ''bar'' [] [CHR 0x09] ''-x'' '';'',
      Other_line ''}'']"

definition split_lines :: "string list" where
  "split_lines = [''\"a\"'', ''[label=\"x\"]'']"

definition arrow_label_lines :: "string list" where
  "arrow_label_lines = [''\"i\" [label=\"->\"]'', ''\"a\" -> \"b\"'']"

definition label_target_lines :: "string list" where
  "label_target_lines = [''\"a\" -> \"[label=\"'', ''\"]x\" [label=\"y\"]'']"

definition arrow_decl :: string where
  "arrow_decl = ''\"i\" [label=\"->\"]''"

section \<open>Properties\<close>

subsection \<open>The loops of the renderer's extraction\<close>

lemma add_node_fields:
  "node_set (add_node (i, l) st) = insert i (node_set st)"
  "edges (add_node (i, l) st) = edges st"
  "calls_map (add_node (i, l) st) =
     (if i \<in> node_set st then calls_map st else (calls_map st)(i \<mapsto> {}))"
  "nodes (add_node (i, l) st) =
     (if i \<in> node_set st then nodes st
      else nodes st @ [\<lparr>nd_id = i, nd_label = l, nd_group = categorize_node i,
                         nd_title = l @ hint\<rparr>])"
  by (auto simp: add_node_def)

lemma node_loop_node_set:
  "node_set (fold add_node ms init_state) = fst ` set ms"
proof (induction ms rule: rev_induct)
  case Nil
  show ?case by (simp add: init_state_def)
next
  case (snoc m ms)
  then show ?case
    by (cases m) (simp add: add_node_fields)
qed

lemma node_loop_edges:
  "edges (fold add_node ms init_state) = []"
proof (induction ms rule: rev_induct)
  case Nil
  show ?case by (simp add: init_state_def)
next
  case (snoc m ms)
  then show ?case
    by (cases m) (simp add: add_node_fields)
qed

lemma node_loop_calls_map:
  "calls_map (fold add_node ms init_state) =
     (\<lambda>i. if i \<in> fst ` set ms then Some {} else None)"
proof (induction ms rule: rev_induct)
  case Nil
  show ?case by (simp add: init_state_def)
next
  case (snoc m ms)
  obtain i l where m: "m = (i, l)" by (cases m)
  show ?case
    using snoc by (auto simp: add_node_fields node_loop_node_set m fun_eq_iff)
qed

lemma node_loop_ids:
  "set (map nd_id (nodes (fold add_node ms init_state))) = fst ` set ms
   \<and> distinct (map nd_id (nodes (fold add_node ms init_state)))"
proof (induction ms rule: rev_induct)
  case Nil
  show ?case by (simp add: init_state_def)
next
  case (snoc m ms)
  obtain i l where m: "m = (i, l)" by (cases m)
  show ?case
    using snoc by (auto simp: add_node_fields node_loop_node_set m)
qed

lemma node_loop_content:
  "n \<in> set (nodes (fold add_node ms init_state)) \<Longrightarrow>
     map_of ms (nd_id n) = Some (nd_label n)
     \<and> nd_group n = categorize_node (nd_id n)
     \<and> nd_title n = nd_label n @ hint"
proof (induction ms rule: rev_induct)
  case Nil
  then show ?case by (simp add: init_state_def)
next
  case (snoc m ms)
  obtain i l where m: "m = (i, l)" by (cases m)
  show ?case
  proof (cases "i \<in> fst ` set ms")
    case True
    with snoc.prems have "n \<in> set (nodes (fold add_node ms init_state))"
      by (simp add: add_node_fields node_loop_node_set m)
    with snoc.IH show ?thesis
      by (auto simp: map_add_def)
  next
    case False
    then have none: "map_of ms i = None"
      by (simp add: map_of_eq_None_iff)
    from snoc.prems False
    have "n \<in> set (nodes (fold add_node ms init_state))
          \<or> n = \<lparr>nd_id = i, nd_label = l, nd_group = categorize_node i, nd_title = l @ hint\<rparr>"
      by (auto simp: add_node_fields node_loop_node_set m)
    then show ?thesis
    proof
      assume "n \<in> set (nodes (fold add_node ms init_state))"
      with snoc.IH show ?thesis by (auto simp: map_add_def)
    next
      assume "n = \<lparr>nd_id = i, nd_label = l, nd_group = categorize_node i, nd_title = l @ hint\<rparr>"
      with none m show ?thesis by (simp add: map_add_def)
    qed
  qed
qed

lemma add_edge_ok:
  "add_edge (s, t) st =
     Inr (st\<lparr>edges := edges st @ [\<lparr>ed_from = s, ed_to = t, ed_arrows = ''to''\<rparr>],
             calls_map := (case calls_map st s of
                             None \<Rightarrow> calls_map st
                           | Some callees \<Rightarrow> (calls_map st)(s \<mapsto> insert t callees))\<rparr>)"
  by (auto simp: add_edge_def Let_def split: option.splits)

lemma edge_loop:
  "\<exists>st'. for_each add_edge es st = Inr st'
     \<and> nodes st' = nodes st
     \<and> edges st' = edges st @ map (\<lambda>(s, t). \<lparr>ed_from = s, ed_to = t, ed_arrows = ''to''\<rparr>) es
     \<and> calls_map st' =
         (\<lambda>i. case calls_map st i of
                 None \<Rightarrow> None
               | Some callees \<Rightarrow> Some (callees \<union> {t. (i, t) \<in> set es}))"
proof (induction es arbitrary: st)
  case Nil
  show ?case by (auto simp: fun_eq_iff split: option.splits)
next
  case (Cons e es)
  obtain s t where e: "e = (s, t)" by (cases e)
  define st1 where "st1 = st\<lparr>edges := edges st @ [\<lparr>ed_from = s, ed_to = t, ed_arrows = ''to''\<rparr>],
             calls_map := (case calls_map st s of
                             None \<Rightarrow> calls_map st
                           | Some callees \<Rightarrow> (calls_map st)(s \<mapsto> insert t callees))\<rparr>"
  have step: "for_each add_edge (e # es) st = for_each add_edge es st1"
    by (simp add: e add_edge_ok st1_def)
  from Cons.IH [of st1] obtain st' where
    r: "for_each add_edge es st1 = Inr st'" and
    n: "nodes st' = nodes st1" and
    ed: "edges st' = edges st1 @ map (\<lambda>(s, t). \<lparr>ed_from = s, ed_to = t, ed_arrows = ''to''\<rparr>) es" and
    cm: "calls_map st' =
         (\<lambda>i. case calls_map st1 i of
                 None \<Rightarrow> None
               | Some callees \<Rightarrow> Some (callees \<union> {t. (i, t) \<in> set es}))"
    by blast
  have "calls_map st' =
         (\<lambda>i. case calls_map st i of
                 None \<Rightarrow> None
               | Some callees \<Rightarrow> Some (callees \<union> {t. (i, t) \<in> set (e # es)}))"
    unfolding cm by (auto simp: st1_def e fun_eq_iff split: option.splits)
  with r n ed step show ?case
    by (simp add: st1_def e)
qed

lemma parse_dot_text_result:
  "parse_dot_text content =
     Inr (nodes (fold add_node (finditer_node content) init_state),
          map (\<lambda>(s, t). \<lparr>ed_from = s, ed_to = t, ed_arrows = ''to''\<rparr>) (finditer_edge content),
          (\<lambda>i. if i \<in> fst ` set (finditer_node content)
                then Some {t. (i, t) \<in> set (finditer_edge content)} else None))"
proof -
  define st where "st = fold add_node (finditer_node content) init_state"
  from edge_loop [of "finditer_edge content" st] obtain st' where
    r: "for_each add_edge (finditer_edge content) st = Inr st'" and
    n: "nodes st' = nodes st" and
    ed: "edges st' = edges st
           @ map (\<lambda>(s, t). \<lparr>ed_from = s, ed_to = t, ed_arrows = ''to''\<rparr>) (finditer_edge content)" and
    cm: "calls_map st' =
         (\<lambda>i. case calls_map st i of
                 None \<Rightarrow> None
               | Some callees \<Rightarrow> Some (callees \<union> {t. (i, t) \<in> set (finditer_edge content)}))"
    by blast
  have "edges st = []"
    unfolding st_def by (rule node_loop_edges)
  moreover have "calls_map st = (\<lambda>i. if i \<in> fst ` set (finditer_node content) then Some {} else None)"
    unfolding st_def by (rule node_loop_calls_map)
  ultimately have "edges st' =
      map (\<lambda>(s, t). \<lparr>ed_from = s, ed_to = t, ed_arrows = ''to''\<rparr>) (finditer_edge content)"
    and "calls_map st' = (\<lambda>i. if i \<in> fst ` set (finditer_node content)
                then Some {t. (i, t) \<in> set (finditer_edge content)} else None)"
    using ed cm by (auto simp: fun_eq_iff)
  with r n show ?thesis
    by (simp add: parse_dot_text_def st_def [symmetric])
qed

subsection \<open>The node classifier\<close>

text \<open>
  Claim C3. The classifier is a total function of the id alone. Its result is one of the
  four categories 1 to 4, and each category is returned exactly when its rule holds: the
  module prefix for 1, the runtime prefix or a runtime primitive name for 2, an entry-point
  or math name for 3, none of them for 4. No two of the first three rules hold of the same
  id, so the rules are mutually exclusive. In particular \<^verbatim>\<open>__mod_init\<close> is in category 1,
  \<^verbatim>\<open>malloc\<close> in 2, \<^verbatim>\<open>main\<close> in 3 and \<^verbatim>\<open>compute_sum\<close> in 4.
\<close>

theorem categorize_node_rules:
  "categorize_node node_id \<in> {1, 2, 3, 4}
   \<and> (categorize_node node_id = 1 \<longleftrightarrow> prefix ''__mod_'' node_id)
   \<and> (categorize_node node_id = 2 \<longleftrightarrow>
        prefix ''_gfortran_'' node_id
        \<or> node_id \<in> {''malloc'', ''free'', ''memset'', ''memmove'', ''realloc''})
   \<and> (categorize_node node_id = 3 \<longleftrightarrow>
        node_id \<in> {''main'', ''MAIN__'', ''sqrt'', ''lround'', ''copysign''})
   \<and> (categorize_node node_id = 4 \<longleftrightarrow>
        \<not> prefix ''__mod_'' node_id
        \<and> \<not> prefix ''_gfortran_'' node_id
        \<and> node_id \<notin> {''malloc'', ''free'', ''memset'', ''memmove'', ''realloc''}
        \<and> node_id \<notin> {''main'', ''MAIN__'', ''sqrt'', ''lround'', ''copysign''})
   \<and> categorize_node ''__mod_init'' = 1
   \<and> categorize_node ''malloc'' = 2
   \<and> categorize_node ''main'' = 3
   \<and> categorize_node ''compute_sum'' = 4"
proof -
  have excl12: "\<not> (prefix ''__mod_'' node_id \<and> (prefix ''_gfortran_'' node_id
        \<or> node_id \<in> {''malloc'', ''free'', ''memset'', ''memmove'', ''realloc''}))"
    by (auto simp: prefix_def)
  have excl13: "\<not> (prefix ''__mod_'' node_id
        \<and> node_id \<in> {''main'', ''MAIN__'', ''sqrt'', ''lround'', ''copysign''})"
    by (auto simp: prefix_def)
  have excl23: "\<not> ((prefix ''_gfortran_'' node_id
        \<or> node_id \<in> {''malloc'', ''free'', ''memset'', ''memmove'', ''realloc''})
        \<and> node_id \<in> {''main'', ''MAIN__'', ''sqrt'', ''lround'', ''copysign''})"
    by (auto simp: prefix_def)
  have ex: "categorize_node ''__mod_init'' = 1" "categorize_node ''malloc'' = 2"
    "categorize_node ''main'' = 3" "categorize_node ''compute_sum'' = 4"
    by (simp_all add: categorize_node_def)
  have "categorize_node node_id \<in> {1, 2, 3, 4}"
    by (simp add: categorize_node_def)
  moreover have "categorize_node node_id = 1 \<longleftrightarrow> prefix ''__mod_'' node_id"
    by (simp add: categorize_node_def)
  moreover have "categorize_node node_id = 2 \<longleftrightarrow>
        prefix ''_gfortran_'' node_id
        \<or> node_id \<in> {''malloc'', ''free'', ''memset'', ''memmove'', ''realloc''}"
    using excl12 by (simp add: categorize_node_def)
  moreover have "categorize_node node_id = 3 \<longleftrightarrow>
        node_id \<in> {''main'', ''MAIN__'', ''sqrt'', ''lround'', ''copysign''}"
    using excl13 excl23 by (simp add: categorize_node_def)
  moreover have "categorize_node node_id = 4 \<longleftrightarrow>
        \<not> prefix ''__mod_'' node_id
        \<and> \<not> prefix ''_gfortran_'' node_id
        \<and> node_id \<notin> {''malloc'', ''free'', ''memset'', ''memmove'', ''realloc''}
        \<and> node_id \<notin> {''main'', ''MAIN__'', ''sqrt'', ''lround'', ''copysign''}"
    by (simp add: categorize_node_def)
  ultimately show ?thesis using ex by blast
qed


subsection \<open>The sample inputs, evaluated\<close>

lemma example_text_nodes: "finditer_node example_text = [(''foo'', ''foo''), (''bar'', ''bar'')]"
  by code_simp

lemma example_text_edges: "finditer_edge example_text = [(''foo'', ''bar''), (''ghost'', ''bar'')]"
  by code_simp

lemma redeclared_text_nodes: "finditer_node redeclared_text = [(''a'', ''x''), (''a'', ''y'')]"
  by code_simp

lemma unmatched_text_nodes: "finditer_node unmatched_text = []"
  by code_simp

lemma unmatched_text_edges: "finditer_edge unmatched_text = []"
  by code_simp

lemma reordered_text_nodes:
  "finditer_node reordered_text = [(''bar'', ''bar''), (''foo'', ''foo''), (''bar'', ''bar'')]"
  by code_simp

lemma reordered_text_edges:
  "finditer_edge reordered_text = [(''ghost'', ''bar''), (''foo'', ''bar''), (''foo'', ''bar'')]"
  by code_simp

lemma candidate_text_nodes: "finditer_node candidate_text = [(''foo'', ''FOO''), (''bar'', ''bar'')]"
  by code_simp

lemma candidate_text_edges: "finditer_edge candidate_text = [(''foo'', ''baz'')]"
  by code_simp

lemma example_report_eval:
  "compare_graphs (dotdiff_parse_text example_text) (dotdiff_parse_text candidate_text)
     = (False, example_report)"
  by code_simp

lemma sample_world_files:
  "files sample_world ''ref.dot'' = Some (Text example_text)"
  "files sample_world ''gen.dot'' = Some (Text reordered_text)"
  "files sample_world ''cand.dot'' = Some (Text candidate_text)"
  "files sample_world ''out'' = Some Directory"
  "files sample_world ''graph.png'' = Some Undecodable"
  "files sample_world ''missing.dot'' = None"
  by (simp_all add: sample_world_def)

subsection \<open>Lists and scanning\<close>

lemma filter_distinct_key:
  "distinct (map f xs) \<Longrightarrow> x \<in> set xs \<Longrightarrow> filter (\<lambda>y. f y = f x) xs = [x]"
proof (induction xs)
  case Nil
  then show ?case by simp
next
  case (Cons a xs)
  show ?case
  proof (cases "a = x")
    case True
    from Cons.prems(1) have "f x \<notin> f ` set xs"
      by (simp add: True)
    then have "filter (\<lambda>y. f y = f x) xs = []"
      by (force simp: filter_empty_conv image_iff)
    with True show ?thesis by simp
  next
    case False
    with Cons.prems have x: "x \<in> set xs" and d: "distinct (map f xs)" and "f a \<notin> f ` set xs"
      by auto
    then have "f a \<noteq> f x" by auto
    with Cons.IH [OF d x] show ?thesis by simp
  qed
qed

lemma map_of_first:
  "i \<notin> fst ` set before \<Longrightarrow> map_of (before @ (i, l) # after) i = Some l"
  by (simp add: map_add_def map_of_eq_None_iff [THEN iffD2])

lemma finditer_node_skip:
  "(\<forall>k < length junk. match_node (drop k (junk @ rest)) = None) \<Longrightarrow>
     finditer_node (junk @ rest) = finditer_node rest"
proof (induction junk)
  case Nil
  show ?case by simp
next
  case (Cons c junk)
  from Cons.prems have "match_node (drop 0 ((c # junk) @ rest)) = None"
    by blast
  then have here: "match_node (c # junk @ rest) = None" by simp
  have "\<forall>k < length junk. match_node (drop k (junk @ rest)) = None"
  proof (intro allI impI)
    fix k assume "k < length junk"
    then have "Suc k < length (c # junk)" by simp
    with Cons.prems have "match_node (drop (Suc k) ((c # junk) @ rest)) = None" by blast
    then show "match_node (drop k (junk @ rest)) = None" by simp
  qed
  with Cons.IH here show ?case by simp
qed

lemma finditer_edge_skip:
  "(\<forall>k < length junk. match_edge (drop k (junk @ rest)) = None) \<Longrightarrow>
     finditer_edge (junk @ rest) = finditer_edge rest"
proof (induction junk)
  case Nil
  show ?case by simp
next
  case (Cons c junk)
  from Cons.prems have "match_edge (drop 0 ((c # junk) @ rest)) = None"
    by blast
  then have here: "match_edge (c # junk @ rest) = None" by simp
  have "\<forall>k < length junk. match_edge (drop k (junk @ rest)) = None"
  proof (intro allI impI)
    fix k assume "k < length junk"
    then have "Suc k < length (c # junk)" by simp
    with Cons.prems have "match_edge (drop (Suc k) ((c # junk) @ rest)) = None" by blast
    then show "match_edge (drop k (junk @ rest)) = None" by simp
  qed
  with Cons.IH here show ?case by simp
qed

lemma finditer_node_Nil_iff:
  "finditer_node s = [] \<longleftrightarrow> (\<forall>t. suffix t s \<longrightarrow> match_node t = None)"
proof (induction s rule: finditer_node.induct)
  case 1
  show ?case by (simp add: match_node_def quoted_def)
next
  case (2 c cs)
  show ?case
  proof (cases "match_node (c # cs)")
    case None
    with 2 show ?thesis
      by (auto simp: suffix_Cons)
  next
    case (Some a)
    then show ?thesis
      by (cases a) (auto simp: suffix_Cons)
  qed
qed

lemma finditer_edge_Nil_iff:
  "finditer_edge s = [] \<longleftrightarrow> (\<forall>t. suffix t s \<longrightarrow> match_edge t = None)"
proof (induction s rule: finditer_edge.induct)
  case 1
  show ?case by (simp add: match_edge_def quoted_def)
next
  case (2 c cs)
  show ?case
  proof (cases "match_edge (c # cs)")
    case None
    with 2 show ?thesis
      by (auto simp: suffix_Cons)
  next
    case (Some a)
    then show ?thesis
      by (cases a) (auto simp: suffix_Cons)
  qed
qed

lemma dotdiff_parse_text_sets:
  "dotdiff_parse_text content =
     \<lparr>graph_nodes = set (finditer_node content), graph_edges = set (finditer_edge content)\<rparr>"
proof -
  have "fold (\<lambda>(a, b) acc. insert (a, b) acc) xs A = set xs \<union> A" for xs :: "(string \<times> string) list" and A
    by (induction xs arbitrary: A) auto
  then show ?thesis
    by (simp add: dotdiff_parse_text_def)
qed

subsection \<open>Totality of the extraction\<close>

text \<open>
  Claim C8. The extraction returns a result for every text: the renderer's extraction never
  ends in an error (the only subscript that could raise, \<^verbatim>\<open>calls_map[source]\<close>, is guarded),
  and both scanners are total functions. A stretch of text at none of whose positions the
  pattern matches is skipped: the scan of the text is the scan of what follows the stretch.
  When neither pattern matches at any position of the text, both extractions return empty
  collections.
\<close>

theorem extraction_total:
  "(\<exists>ns es cm. parse_dot_text content = Inr (ns, es, cm))
   \<and> ((\<forall>k < length junk. match_node (drop k (junk @ rest)) = None) \<longrightarrow>
        finditer_node (junk @ rest) = finditer_node rest)
   \<and> ((\<forall>k < length junk. match_edge (drop k (junk @ rest)) = None) \<longrightarrow>
        finditer_edge (junk @ rest) = finditer_edge rest)
   \<and> ((\<forall>t. suffix t content \<longrightarrow> match_node t = None \<and> match_edge t = None) \<longrightarrow>
        parse_dot_text content = Inr ([], [], Map.empty)
        \<and> dotdiff_parse_text content = \<lparr>graph_nodes = {}, graph_edges = {}\<rparr>)"
proof -
  have "\<exists>ns es cm. parse_dot_text content = Inr (ns, es, cm)"
    by (simp add: parse_dot_text_result)
  moreover have "parse_dot_text content = Inr ([], [], Map.empty)
        \<and> dotdiff_parse_text content = \<lparr>graph_nodes = {}, graph_edges = {}\<rparr>"
    if "\<forall>t. suffix t content \<longrightarrow> match_node t = None \<and> match_edge t = None"
  proof -
    from that have "finditer_node content = []" and "finditer_edge content = []"
      by (simp_all add: finditer_node_Nil_iff finditer_edge_Nil_iff)
    then show ?thesis
      by (simp add: parse_dot_text_result dotdiff_parse_text_sets init_state_def)
  qed
  ultimately show ?thesis
    using finditer_node_skip [of junk rest] finditer_edge_skip [of junk rest] by blast
qed

theorem extraction_total_witness:
  "finditer_node (''digraph G {'' @ example_text) = finditer_node example_text
   \<and> finditer_edge (''digraph G {'' @ example_text) = finditer_edge example_text
   \<and> parse_dot_text unmatched_text = Inr ([], [], Map.empty)
   \<and> dotdiff_parse_text unmatched_text = \<lparr>graph_nodes = {}, graph_edges = {}\<rparr>"
proof -
  have n: "\<forall>k < length ''digraph G {''. match_node (drop k (''digraph G {'' @ example_text)) = None"
    by (simp add: All_less_Suc match_node_def quoted_def dquote_def)
  have e: "\<forall>k < length ''digraph G {''. match_edge (drop k (''digraph G {'' @ example_text)) = None"
    by (simp add: All_less_Suc match_edge_def quoted_def dquote_def)
  have u: "\<forall>t. suffix t unmatched_text \<longrightarrow> match_node t = None \<and> match_edge t = None"
    using unmatched_text_nodes unmatched_text_edges
    by (simp add: finditer_node_Nil_iff finditer_edge_Nil_iff)
  from extraction_total [of unmatched_text "''digraph G {''" example_text] n e u
  show ?thesis by blast
qed

subsection \<open>The renderable model\<close>

text \<open>
  Claim C9. The nodes of the renderable model carry pairwise distinct ids, and these are
  exactly the ids of the node declarations found in the text, so each extracted node
  appears once and none is added or dropped. Each node carries the label of the first
  declaration of its id, the category of its id, and the tooltip made of its label and the
  fixed hint. The edges of the model are the edge declarations found, in order and one for
  one, each with its source, its target and the arrow marker \<^verbatim>\<open>to\<close>.
\<close>

theorem renderable_model_preserves:
  "\<exists>ns es cm. parse_dot_text content = Inr (ns, es, cm)
     \<and> distinct (map nd_id ns)
     \<and> set (map nd_id ns) = fst ` set (finditer_node content)
     \<and> (\<forall>n \<in> set ns.
           map_of (finditer_node content) (nd_id n) = Some (nd_label n)
           \<and> nd_group n = categorize_node (nd_id n)
           \<and> nd_title n = nd_label n @ CHR 0x0A # ''Double-click to collapse/expand children'')
     \<and> es = map (\<lambda>(source, target). \<lparr>ed_from = source, ed_to = target, ed_arrows = ''to''\<rparr>)
               (finditer_edge content)"
  using node_loop_ids [of "finditer_node content"]
    node_loop_content [of _ "finditer_node content"]
  by (simp add: parse_dot_text_result hint_def)

theorem renderable_model_preserves_witness:
  "\<exists>ns es cm. parse_dot_text example_text = Inr (ns, es, cm)
     \<and> length ns = 2
     \<and> \<lparr>nd_id = ''foo'', nd_label = ''foo'', nd_group = 4,
         nd_title = ''foo'' @ CHR 0x0A # ''Double-click to collapse/expand children''\<rparr> \<in> set ns
     \<and> es = [\<lparr>ed_from = ''foo'', ed_to = ''bar'', ed_arrows = ''to''\<rparr>,
             \<lparr>ed_from = ''ghost'', ed_to = ''bar'', ed_arrows = ''to''\<rparr>]"
proof -
  from renderable_model_preserves [of example_text] obtain ns es cm where
    r: "parse_dot_text example_text = Inr (ns, es, cm)" and
    d: "distinct (map nd_id ns)" and
    ids0: "set (map nd_id ns) = fst ` set (finditer_node example_text)" and
    c0: "\<forall>n \<in> set ns.
           map_of (finditer_node example_text) (nd_id n) = Some (nd_label n)
           \<and> nd_group n = categorize_node (nd_id n)
           \<and> nd_title n = nd_label n @ CHR 0x0A # ''Double-click to collapse/expand children''" and
    es0: "es = map (\<lambda>(source, target). \<lparr>ed_from = source, ed_to = target, ed_arrows = ''to''\<rparr>)
               (finditer_edge example_text)"
    by blast
  from ids0 have ids: "set (map nd_id ns) = {''foo'', ''bar''}"
    by (simp add: example_text_nodes)
  from es0 have es: "es = [\<lparr>ed_from = ''foo'', ed_to = ''bar'', ed_arrows = ''to''\<rparr>,
             \<lparr>ed_from = ''ghost'', ed_to = ''bar'', ed_arrows = ''to''\<rparr>]"
    by (simp add: example_text_edges)
  from distinct_card [OF d] ids have len: "length ns = 2" by simp
  from ids have "''foo'' \<in> nd_id ` set ns" by simp
  then obtain n where n: "n \<in> set ns" and i: "nd_id n = ''foo''"
    by (auto simp: image_iff)
  from c0 n have cn: "map_of (finditer_node example_text) (nd_id n) = Some (nd_label n)
           \<and> nd_group n = categorize_node (nd_id n)
           \<and> nd_title n = nd_label n @ CHR 0x0A # ''Double-click to collapse/expand children''"
    by blast
  from cn i have l: "nd_label n = ''foo''"
    by (simp add: example_text_nodes)
  from cn i have g: "nd_group n = 4"
    by (simp add: categorize_node_def)
  from cn l have t: "nd_title n = ''foo'' @ CHR 0x0A # ''Double-click to collapse/expand children''"
    by simp
  from i l g t have "n = \<lparr>nd_id = ''foo'', nd_label = ''foo'', nd_group = 4,
         nd_title = ''foo'' @ CHR 0x0A # ''Double-click to collapse/expand children''\<rparr>"
    by (cases n) simp
  with n r len es show ?thesis by blast
qed

subsection \<open>The calls map\<close>

text \<open>
  Claim C10. The keys of the returned \<^verbatim>\<open>calls_map\<close> are exactly the ids of the returned
  nodes; the set stored under such an id is the set of targets of the returned edges whose
  source is that id; an edge declaration whose source is not the id of any node declaration
  is in the returned edge list while its source is no key of the map.
\<close>

theorem calls_map_keys_and_callees:
  "\<exists>ns es cm. parse_dot_text content = Inr (ns, es, cm)
     \<and> dom cm = set (map nd_id ns)
     \<and> (\<forall>i \<in> set (map nd_id ns). cm i = Some {ed_to e | e. e \<in> set es \<and> ed_from e = i})
     \<and> (\<forall>source target.
           (source, target) \<in> set (finditer_edge content)
           \<and> source \<notin> fst ` set (finditer_node content) \<longrightarrow>
           \<lparr>ed_from = source, ed_to = target, ed_arrows = ''to''\<rparr> \<in> set es
           \<and> source \<notin> set (map nd_id ns) \<and> cm source = None)"
proof -
  let ?ns = "nodes (fold add_node (finditer_node content) init_state)"
  let ?es = "map (\<lambda>(s, t). \<lparr>ed_from = s, ed_to = t, ed_arrows = ''to''\<rparr>) (finditer_edge content)"
  let ?cm = "\<lambda>i. if i \<in> fst ` set (finditer_node content)
                then Some {t. (i, t) \<in> set (finditer_edge content)} else None"
  have ids: "set (map nd_id ?ns) = fst ` set (finditer_node content)"
    using node_loop_ids [of "finditer_node content"] by simp
  have dom: "dom ?cm = set (map nd_id ?ns)"
    unfolding ids by (auto simp: dom_def)
  have targets: "{ed_to e | e. e \<in> set ?es \<and> ed_from e = i} = {t. (i, t) \<in> set (finditer_edge content)}" for i
    by force
  have callees: "\<forall>i \<in> set (map nd_id ?ns). ?cm i = Some {ed_to e | e. e \<in> set ?es \<and> ed_from e = i}"
    unfolding ids targets by simp
  have dangling: "\<forall>source target.
           (source, target) \<in> set (finditer_edge content)
           \<and> source \<notin> fst ` set (finditer_node content) \<longrightarrow>
           \<lparr>ed_from = source, ed_to = target, ed_arrows = ''to''\<rparr> \<in> set ?es
           \<and> source \<notin> set (map nd_id ?ns) \<and> ?cm source = None"
    unfolding ids by force
  from dom callees dangling show ?thesis
    unfolding parse_dot_text_result by blast
qed

theorem calls_map_keys_and_callees_witness:
  "\<exists>ns es cm. parse_dot_text example_text = Inr (ns, es, cm)
     \<and> dom cm = {''foo'', ''bar''}
     \<and> cm ''foo'' = Some {''bar''}
     \<and> cm ''bar'' = Some {}
     \<and> \<lparr>ed_from = ''ghost'', ed_to = ''bar'', ed_arrows = ''to''\<rparr> \<in> set es
     \<and> cm ''ghost'' = None"
proof -
  from calls_map_keys_and_callees [of example_text] obtain ns es cm where
    r: "parse_dot_text example_text = Inr (ns, es, cm)" and
    k: "dom cm = set (map nd_id ns)" and
    c: "\<forall>i \<in> set (map nd_id ns). cm i = Some {ed_to e | e. e \<in> set es \<and> ed_from e = i}" and
    g: "\<forall>source target.
           (source, target) \<in> set (finditer_edge example_text)
           \<and> source \<notin> fst ` set (finditer_node example_text) \<longrightarrow>
           \<lparr>ed_from = source, ed_to = target, ed_arrows = ''to''\<rparr> \<in> set es
           \<and> source \<notin> set (map nd_id ns) \<and> cm source = None"
    by blast
  from r have ns: "map nd_id ns = [''foo'', ''bar'']"
    and es: "es = [\<lparr>ed_from = ''foo'', ed_to = ''bar'', ed_arrows = ''to''\<rparr>,
             \<lparr>ed_from = ''ghost'', ed_to = ''bar'', ed_arrows = ''to''\<rparr>]"
    by (auto simp: parse_dot_text_result example_text_nodes example_text_edges
        init_state_def add_node_def)
  from k ns have "dom cm = {''foo'', ''bar''}" by simp
  moreover have "{ed_to e | e. e \<in> set es \<and> ed_from e = ''foo''} = {''bar''}"
    unfolding es by force
  with c ns have "cm ''foo'' = Some {''bar''}" by simp
  moreover have "{ed_to e | e. e \<in> set es \<and> ed_from e = ''bar''} = {}"
    unfolding es by force
  with c ns have "cm ''bar'' = Some {}" by simp
  moreover from g [rule_format, of "''ghost''" "''bar''"]
  have "\<lparr>ed_from = ''ghost'', ed_to = ''bar'', ed_arrows = ''to''\<rparr> \<in> set es \<and> cm ''ghost'' = None"
    by (simp add: example_text_nodes example_text_edges)
  ultimately show ?thesis using r by blast
qed

subsection \<open>Repeated declarations of a node id\<close>

text \<open>
  Claim C2, as stated, for the comparator's extraction: the text \<open>redeclared_text\<close>
  declares the id \<^verbatim>\<open>a\<close> twice, with the labels \<^verbatim>\<open>x\<close> and \<^verbatim>\<open>y\<close>, and the comparator's
  extraction returns two nodes with that id, one for each label.
\<close>

theorem comparator_keeps_redeclared_labels:
  "graph_nodes (dotdiff_parse_text redeclared_text) = {(''a'', ''x''), (''a'', ''y'')}
   \<and> card (graph_nodes (dotdiff_parse_text redeclared_text)) = 2"
  by (simp add: dotdiff_parse_text_sets redeclared_text_nodes)

text \<open>
  Claim C2, amended. When the same id is declared twice, and the first of the two
  declarations is the earliest declaration of that id, the renderer's extraction returns
  exactly one node with that id, whose label is that of the earliest declaration (with the
  category and tooltip that go with it); the comparator's extraction keeps one node for
  each declared pair of id and label, so it holds both pairs.
\<close>

theorem first_declaration_wins:
  assumes "finditer_node content = before @ (i, l1) # between @ (i, l2) # after"
    and "i \<notin> fst ` set before"
  shows "(\<exists>ns es cm. parse_dot_text content = Inr (ns, es, cm)
           \<and> filter (\<lambda>n. nd_id n = i) ns =
               [\<lparr>nd_id = i, nd_label = l1, nd_group = categorize_node i, nd_title = l1 @ hint\<rparr>])
         \<and> (i, l1) \<in> graph_nodes (dotdiff_parse_text content)
         \<and> (i, l2) \<in> graph_nodes (dotdiff_parse_text content)"
proof -
  let ?ns = "nodes (fold add_node (finditer_node content) init_state)"
  have "i \<in> fst ` set (finditer_node content)"
    unfolding assms(1) by force
  then have "i \<in> set (map nd_id ?ns)"
    using node_loop_ids [of "finditer_node content"] by simp
  then obtain n where n: "n \<in> set ?ns" and i: "nd_id n = i"
    by auto
  have "map_of (finditer_node content) i = Some l1"
    unfolding assms(1) using assms(2) by (rule map_of_first)
  with node_loop_content [OF n] i
  have "nd_label n = l1" and "nd_group n = categorize_node i" and "nd_title n = l1 @ hint"
    by auto
  with i have n_eq: "n = \<lparr>nd_id = i, nd_label = l1, nd_group = categorize_node i, nd_title = l1 @ hint\<rparr>"
    by (cases n) simp
  have "distinct (map nd_id ?ns)"
    using node_loop_ids [of "finditer_node content"] by simp
  from filter_distinct_key [OF this n] have "filter (\<lambda>m. nd_id m = i) ?ns = [n]"
    by (simp add: i)
  with n_eq have "\<exists>ns es cm. parse_dot_text content = Inr (ns, es, cm)
           \<and> filter (\<lambda>n. nd_id n = i) ns =
               [\<lparr>nd_id = i, nd_label = l1, nd_group = categorize_node i, nd_title = l1 @ hint\<rparr>]"
    by (simp add: parse_dot_text_result)
  moreover have "(i, l1) \<in> graph_nodes (dotdiff_parse_text content)"
    and "(i, l2) \<in> graph_nodes (dotdiff_parse_text content)"
    by (simp_all add: dotdiff_parse_text_sets assms(1))
  ultimately show ?thesis by blast
qed

theorem first_declaration_wins_witness:
  "(\<exists>ns es cm. parse_dot_text redeclared_text = Inr (ns, es, cm)
      \<and> filter (\<lambda>n. nd_id n = ''a'') ns =
          [\<lparr>nd_id = ''a'', nd_label = ''x'', nd_group = 4,
            nd_title = ''x'' @ CHR 0x0A # ''Double-click to collapse/expand children''\<rparr>])
   \<and> (''a'', ''x'') \<in> graph_nodes (dotdiff_parse_text redeclared_text)
   \<and> (''a'', ''y'') \<in> graph_nodes (dotdiff_parse_text redeclared_text)"
proof -
  have "finditer_node redeclared_text = [] @ (''a'', ''x'') # [] @ (''a'', ''y'') # []"
    by (simp add: redeclared_text_nodes)
  moreover have "''a'' \<notin> fst ` set ([] :: (string \<times> string) list)"
    by simp
  ultimately show ?thesis
    using first_declaration_wins [of redeclared_text "[]" "''a''" "''x''" "[]" "''y''" "[]"]
    by (simp add: categorize_node_def hint_def)
qed

subsection \<open>The comparator\<close>

lemma section_of_Nil_iff: "section_of heading line only_in = [] \<longleftrightarrow> only_in = {}"
  by (simp add: section_of_def)

lemma differences_Nil_iff:
  "differences graph1 graph2 = [] \<longleftrightarrow>
     nodes_only_in_1 graph1 graph2 = {} \<and> nodes_only_in_2 graph1 graph2 = {}
     \<and> edges_only_in_1 graph1 graph2 = {} \<and> edges_only_in_2 graph1 graph2 = {}"
  by (simp add: differences_def section_of_Nil_iff)

lemma only_in_empty_iff:
  "nodes_only_in_1 graph1 graph2 = {} \<and> nodes_only_in_2 graph1 graph2 = {}
     \<and> edges_only_in_1 graph1 graph2 = {} \<and> edges_only_in_2 graph1 graph2 = {}
   \<longleftrightarrow> graph_nodes graph1 = graph_nodes graph2 \<and> graph_edges graph1 = graph_edges graph2"
  by (auto simp: nodes_only_in_1_def nodes_only_in_2_def edges_only_in_1_def edges_only_in_2_def)

lemma compare_graphs_verdict:
  "fst (compare_graphs graph1 graph2) \<longleftrightarrow>
     graph_nodes graph1 = graph_nodes graph2 \<and> graph_edges graph1 = graph_edges graph2"
  using differences_Nil_iff [of graph1 graph2] only_in_empty_iff [of graph1 graph2]
  by (simp add: compare_graphs_def Let_def)

lemma compare_graphs_equal:
  "graph_nodes graph1 = graph_nodes graph2 \<Longrightarrow> graph_edges graph1 = graph_edges graph2 \<Longrightarrow>
     compare_graphs graph1 graph2 = (True, ''Graphs are structurally identical'')"
  using differences_Nil_iff [of graph1 graph2] only_in_empty_iff [of graph1 graph2]
  by (simp add: compare_graphs_def Let_def)

lemma compare_dot_files_result:
  assumes "files w file1 = Some (Text content1)" and "files w file2 = Some (Text content2)"
  shows "compare_dot_files file1 file2 w =
           (Inr (compare_graphs (dotdiff_parse_text content1) (dotdiff_parse_text content2)),
            w\<lparr>opened := opened w @ [file1, file2]\<rparr>)"
  using assms by (simp add: compare_dot_files_def dotdiff_parse_dot_file_def open_read_def Let_def)

lemma compare_dot_files_first_fails:
  assumes "files w file1 = Some e1" and "read_text e1 = Inl err"
  shows "compare_dot_files file1 file2 w = (Inl err, w\<lparr>opened := opened w @ [file1]\<rparr>)"
  using assms by (simp add: compare_dot_files_def dotdiff_parse_dot_file_def open_read_def Let_def)

lemma compare_dot_files_second_fails:
  assumes "files w file1 = Some (Text content1)"
    and "files w file2 = Some e2" and "read_text e2 = Inl err"
  shows "compare_dot_files file1 file2 w = (Inl err, w\<lparr>opened := opened w @ [file1, file2]\<rparr>)"
  using assms by (simp add: compare_dot_files_def dotdiff_parse_dot_file_def open_read_def Let_def)

text \<open>
  Claim C6. Comparing a graph with itself gives the verdict equal, the one-line summary, an
  empty list of differences and four empty set differences; comparing a readable file with
  itself gives the same verdict and summary.
\<close>

theorem compare_reflexive:
  "compare_graphs g g = (True, ''Graphs are structurally identical'')
   \<and> differences g g = []
   \<and> nodes_only_in_1 g g = {} \<and> nodes_only_in_2 g g = {}
   \<and> edges_only_in_1 g g = {} \<and> edges_only_in_2 g g = {}
   \<and> (files w file = Some (Text content) \<longrightarrow>
        fst (compare_dot_files file file w) = Inr (True, ''Graphs are structurally identical''))"
proof -
  have "compare_graphs g g = (True, ''Graphs are structurally identical'')"
    by (rule compare_graphs_equal) simp_all
  moreover have e: "nodes_only_in_1 g g = {} \<and> nodes_only_in_2 g g = {}
      \<and> edges_only_in_1 g g = {} \<and> edges_only_in_2 g g = {}"
    by (simp add: only_in_empty_iff)
  moreover from e have "differences g g = []"
    by (simp add: differences_Nil_iff)
  moreover have "fst (compare_dot_files file file w) = Inr (True, ''Graphs are structurally identical'')"
    if "files w file = Some (Text content)"
    using compare_dot_files_result [OF that that]
      compare_graphs_equal [of "dotdiff_parse_text content" "dotdiff_parse_text content"]
    by simp
  ultimately show ?thesis by blast
qed

theorem compare_reflexive_witness:
  "fst (compare_dot_files ''ref.dot'' ''ref.dot''
          \<lparr>files = [''ref.dot'' \<mapsto> Text example_text], opened = [], stdout = []\<rparr>)
     = Inr (True, ''Graphs are structurally identical'')"
  using compare_reflexive
    [of _ "\<lparr>files = [''ref.dot'' \<mapsto> Text example_text], opened = [], stdout = []\<rparr>" "''ref.dot''" example_text]
  by simp

subsection \<open>The report\<close>

lemma finite_parsed:
  "finite (graph_nodes (dotdiff_parse_text content))"
  "finite (graph_edges (dotdiff_parse_text content))"
  by (simp_all add: dotdiff_parse_text_sets)

lemma section_of_sorted:
  assumes "finite only_in"
  shows "\<exists>xs. sorted xs \<and> distinct xs \<and> set xs = only_in
           \<and> section_of heading line only_in = (if xs = [] then [] else heading # map line xs)"
proof -
  let ?xs = "sorted_list_of_set only_in"
  have "sorted ?xs" and "distinct ?xs" by simp_all
  moreover from assms have s: "set ?xs = only_in" by simp
  moreover from s have "?xs = [] \<longleftrightarrow> only_in = {}" by auto
  then have "section_of heading line only_in = (if ?xs = [] then [] else heading # map line ?xs)"
    by (simp add: section_of_def)
  ultimately show ?thesis by blast
qed

lemma sorted_pairs_iff:
  "sorted (xs :: (string \<times> string) list) \<longleftrightarrow>
     sorted_wrt (\<lambda>x y. fst x < fst y \<or> fst x = fst y \<and> snd x \<le> snd y) xs"
proof -
  have "(\<lambda>x y :: string \<times> string. x \<le> y)
        = (\<lambda>x y. fst x < fst y \<or> fst x = fst y \<and> snd x \<le> snd y)"
    by (auto simp: fun_eq_iff less_eq_prod_def)
  then show ?thesis by simp
qed

lemma listing_unique: "listing A xs \<Longrightarrow> listing A ys \<Longrightarrow> xs = ys"
  unfolding listing_def sorted_pairs_iff [symmetric]
  by (blast intro: sorted_distinct_set_unique)

lemma section_of_listing:
  assumes "finite only_in"
  shows "\<exists>xs. listing only_in xs
           \<and> section_of heading line only_in = (if xs = [] then [] else heading # map line xs)"
  using section_of_sorted [OF assms, of heading line]
  unfolding listing_def sorted_pairs_iff [symmetric] by blast

text \<open>
  Claim C5. When the graphs extracted from two texts are unequal, the summary is the line
  \<^verbatim>\<open>Graphs differ:\<close>, a line with the numbers of nodes and edges of the reference, a line
  with those of the candidate, the heading \<^verbatim>\<open>Differences:\<close>, and then, in this order, the
  nodes only in the reference, the nodes only in the candidate, the edges only in the
  reference and the edges only in the candidate: each category that is not empty has its
  heading and one line for each member, the members listed once each, ordered by first
  component and then by second component. Such a listing of a set is unique, so the report
  is determined by the two graphs.
\<close>

theorem report_when_unequal:
  assumes "graph1 = dotdiff_parse_text content1" and "graph2 = dotdiff_parse_text content2"
    and "\<not> fst (compare_graphs graph1 graph2)"
  shows "\<exists>n1 n2 e1 e2.
      listing (graph_nodes graph1 - graph_nodes graph2) n1
      \<and> listing (graph_nodes graph2 - graph_nodes graph1) n2
      \<and> listing (graph_edges graph1 - graph_edges graph2) e1
      \<and> listing (graph_edges graph2 - graph_edges graph1) e2
      \<and> snd (compare_graphs graph1 graph2) =
          ''Graphs differ:'' @ [CHR 0x0A]
          @ ''  Reference: '' @ str_nat (card (graph_nodes graph1)) @ '' nodes, ''
          @ str_nat (card (graph_edges graph1)) @ '' edges'' @ [CHR 0x0A]
          @ ''  Generated: '' @ str_nat (card (graph_nodes graph2)) @ '' nodes, ''
          @ str_nat (card (graph_edges graph2)) @ '' edges'' @ [CHR 0x0A]
          @ [CHR 0x0A] @ ''Differences:'' @ [CHR 0x0A]
          @ join [CHR 0x0A]
              ((if n1 = [] then [] else ''Nodes only in reference file:''
                  # map (\<lambda>(node_id, node_label). ''  - '' @ node_id @ '' [label='' @ node_label @ '']'') n1)
               @ (if n2 = [] then [] else ''Nodes only in generated file:''
                  # map (\<lambda>(node_id, node_label). ''  + '' @ node_id @ '' [label='' @ node_label @ '']'') n2)
               @ (if e1 = [] then [] else ''Edges only in reference file:''
                  # map (\<lambda>(from_node, to_node). ''  - '' @ from_node @ '' -> '' @ to_node) e1)
               @ (if e2 = [] then [] else ''Edges only in generated file:''
                  # map (\<lambda>(from_node, to_node). ''  + '' @ from_node @ '' -> '' @ to_node) e2))"
proof -
  have fin: "finite (nodes_only_in_1 graph1 graph2)" "finite (nodes_only_in_2 graph1 graph2)"
    "finite (edges_only_in_1 graph1 graph2)" "finite (edges_only_in_2 graph1 graph2)"
    unfolding assms(1,2)
    by (simp_all add: nodes_only_in_1_def nodes_only_in_2_def edges_only_in_1_def
        edges_only_in_2_def finite_parsed)
  let ?l1 = "\<lambda>(node_id, node_label). ''  - '' @ node_id @ '' [label='' @ node_label @ '']''"
  let ?l2 = "\<lambda>(node_id, node_label). ''  + '' @ node_id @ '' [label='' @ node_label @ '']''"
  let ?l3 = "\<lambda>(from_node, to_node). ''  - '' @ from_node @ '' -> '' @ to_node"
  let ?l4 = "\<lambda>(from_node, to_node). ''  + '' @ from_node @ '' -> '' @ to_node"
  from section_of_listing [OF fin(1), of "''Nodes only in reference file:''" ?l1]
  obtain n1 where n1: "listing (nodes_only_in_1 graph1 graph2) n1"
    and s1: "section_of ''Nodes only in reference file:'' ?l1 (nodes_only_in_1 graph1 graph2)
             = (if n1 = [] then [] else ''Nodes only in reference file:'' # map ?l1 n1)"
    by blast
  from section_of_listing [OF fin(2), of "''Nodes only in generated file:''" ?l2]
  obtain n2 where n2: "listing (nodes_only_in_2 graph1 graph2) n2"
    and s2: "section_of ''Nodes only in generated file:'' ?l2 (nodes_only_in_2 graph1 graph2)
             = (if n2 = [] then [] else ''Nodes only in generated file:'' # map ?l2 n2)"
    by blast
  from section_of_listing [OF fin(3), of "''Edges only in reference file:''" ?l3]
  obtain e1 where e1: "listing (edges_only_in_1 graph1 graph2) e1"
    and s3: "section_of ''Edges only in reference file:'' ?l3 (edges_only_in_1 graph1 graph2)
             = (if e1 = [] then [] else ''Edges only in reference file:'' # map ?l3 e1)"
    by blast
  from section_of_listing [OF fin(4), of "''Edges only in generated file:''" ?l4]
  obtain e2 where e2: "listing (edges_only_in_2 graph1 graph2) e2"
    and s4: "section_of ''Edges only in generated file:'' ?l4 (edges_only_in_2 graph1 graph2)
             = (if e2 = [] then [] else ''Edges only in generated file:'' # map ?l4 e2)"
    by blast
  have d: "differences graph1 graph2 =
       (if n1 = [] then [] else ''Nodes only in reference file:'' # map ?l1 n1)
       @ (if n2 = [] then [] else ''Nodes only in generated file:'' # map ?l2 n2)
       @ (if e1 = [] then [] else ''Edges only in reference file:'' # map ?l3 e1)
       @ (if e2 = [] then [] else ''Edges only in generated file:'' # map ?l4 e2)"
    unfolding differences_def s1 s2 s3 s4 ..
  from assms(3) have ne: "differences graph1 graph2 \<noteq> []"
    by (simp add: compare_graphs_def Let_def)
  then have summary: "snd (compare_graphs graph1 graph2) =
      ''Graphs differ:'' @ [CHR 0x0A]
      @ counts_line ''Reference'' graph1 @ counts_line ''Generated'' graph2
      @ [CHR 0x0A] @ ''Differences:'' @ [CHR 0x0A] @ join [CHR 0x0A] (differences graph1 graph2)"
    by (simp add: compare_graphs_def Let_def)
  have "snd (compare_graphs graph1 graph2) =
          ''Graphs differ:'' @ [CHR 0x0A]
          @ ''  Reference: '' @ str_nat (card (graph_nodes graph1)) @ '' nodes, ''
          @ str_nat (card (graph_edges graph1)) @ '' edges'' @ [CHR 0x0A]
          @ ''  Generated: '' @ str_nat (card (graph_nodes graph2)) @ '' nodes, ''
          @ str_nat (card (graph_edges graph2)) @ '' edges'' @ [CHR 0x0A]
          @ [CHR 0x0A] @ ''Differences:'' @ [CHR 0x0A]
          @ join [CHR 0x0A]
              ((if n1 = [] then [] else ''Nodes only in reference file:'' # map ?l1 n1)
               @ (if n2 = [] then [] else ''Nodes only in generated file:'' # map ?l2 n2)
               @ (if e1 = [] then [] else ''Edges only in reference file:'' # map ?l3 e1)
               @ (if e2 = [] then [] else ''Edges only in generated file:'' # map ?l4 e2))"
    unfolding summary d counts_line_def by simp
  with n1 n2 e1 e2 show ?thesis
    unfolding nodes_only_in_1_def nodes_only_in_2_def edges_only_in_1_def edges_only_in_2_def
    by blast
qed

theorem report_when_unequal_witness:
  "\<not> fst (compare_graphs (dotdiff_parse_text example_text) (dotdiff_parse_text candidate_text))
   \<and> (\<exists>n1 n2 e1 e2.
        listing {(''foo'', ''foo'')} n1 \<and> listing {(''foo'', ''FOO'')} n2
        \<and> listing {(''foo'', ''bar''), (''ghost'', ''bar'')} e1 \<and> listing {(''foo'', ''baz'')} e2
        \<and> e1 = [(''foo'', ''bar''), (''ghost'', ''bar'')])
   \<and> snd (compare_graphs (dotdiff_parse_text example_text) (dotdiff_parse_text candidate_text))
       = example_report"
proof -
  have v: "\<not> fst (compare_graphs (dotdiff_parse_text example_text) (dotdiff_parse_text candidate_text))"
    by (simp add: example_report_eval)
  have n1: "graph_nodes (dotdiff_parse_text example_text) - graph_nodes (dotdiff_parse_text candidate_text)
      = {(''foo'', ''foo'')}"
    by (auto simp: dotdiff_parse_text_sets example_text_nodes candidate_text_nodes)
  have n2: "graph_nodes (dotdiff_parse_text candidate_text) - graph_nodes (dotdiff_parse_text example_text)
      = {(''foo'', ''FOO'')}"
    by (auto simp: dotdiff_parse_text_sets example_text_nodes candidate_text_nodes)
  have e1: "graph_edges (dotdiff_parse_text example_text) - graph_edges (dotdiff_parse_text candidate_text)
      = {(''foo'', ''bar''), (''ghost'', ''bar'')}"
    by (auto simp: dotdiff_parse_text_sets example_text_edges candidate_text_edges)
  have e2: "graph_edges (dotdiff_parse_text candidate_text) - graph_edges (dotdiff_parse_text example_text)
      = {(''foo'', ''baz'')}"
    by (auto simp: dotdiff_parse_text_sets example_text_edges candidate_text_edges)
  from report_when_unequal [OF refl refl v] obtain l1 l2 l3 l4 where
    l: "listing {(''foo'', ''foo'')} l1" "listing {(''foo'', ''FOO'')} l2"
       "listing {(''foo'', ''bar''), (''ghost'', ''bar'')} l3" "listing {(''foo'', ''baz'')} l4"
    unfolding n1 n2 e1 e2 by blast
  have "listing {(''foo'', ''bar''), (''ghost'', ''bar'')} [(''foo'', ''bar''), (''ghost'', ''bar'')]"
    by (simp add: listing_def)
  with l(3) have "l3 = [(''foo'', ''bar''), (''ghost'', ''bar'')]"
    by (rule listing_unique)
  with l v show ?thesis
    by (auto simp: example_report_eval)
qed

subsection \<open>The command line of the comparator\<close>

text \<open>
  Claim C4. Called with two arguments, the comparator
  \<^item> exits with status 0 after printing the one line \<^verbatim>\<open>Graphs are structurally identical\<close>
    when both paths name readable files and their graphs are equal;
  \<^item> exits with status 1 after printing the summary of the differences when both paths name
    readable files and their graphs are unequal;
  \<^item> exits with status 1 after printing a file-not-found message, and without having opened
    any file, when the reference path names nothing, or when the reference path names
    something and the candidate path names nothing.

  When both paths name something and one of them cannot be read as text, the exception of
  \<^verbatim>\<open>open\<close> or \<^verbatim>\<open>read\<close> leaves \<^verbatim>\<open>main\<close>: the status is 1 and nothing is printed on the standard
  output.
\<close>

theorem main_exit_codes:
  "(files w (Path arg1) = Some (Text content1) \<and> files w (Path arg2) = Some (Text content2)
      \<and> graph_nodes (dotdiff_parse_text content1) = graph_nodes (dotdiff_parse_text content2)
      \<and> graph_edges (dotdiff_parse_text content1) = graph_edges (dotdiff_parse_text content2) \<longrightarrow>
      main Path argv0 [arg1, arg2] w =
        (0, w\<lparr>opened := opened w @ [Path arg1, Path arg2],
               stdout := stdout w @ [''Graphs are structurally identical'']\<rparr>))
   \<and> (files w (Path arg1) = Some (Text content1) \<and> files w (Path arg2) = Some (Text content2)
      \<and> \<not> (graph_nodes (dotdiff_parse_text content1) = graph_nodes (dotdiff_parse_text content2)
           \<and> graph_edges (dotdiff_parse_text content1) = graph_edges (dotdiff_parse_text content2)) \<longrightarrow>
      main Path argv0 [arg1, arg2] w =
        (1, w\<lparr>opened := opened w @ [Path arg1, Path arg2],
               stdout := stdout w @
                 [snd (compare_graphs (dotdiff_parse_text content1) (dotdiff_parse_text content2))]\<rparr>))
   \<and> (\<not> exists (Path arg1) w \<longrightarrow>
      main Path argv0 [arg1, arg2] w =
        (1, w\<lparr>stdout := stdout w @ [''Error: Reference file not found: '' @ Path arg1]\<rparr>))
   \<and> (exists (Path arg1) w \<and> \<not> exists (Path arg2) w \<longrightarrow>
      main Path argv0 [arg1, arg2] w =
        (1, w\<lparr>stdout := stdout w @ [''Error: Generated file not found: '' @ Path arg2]\<rparr>))
   \<and> (files w (Path arg1) = Some e1 \<and> read_text e1 = Inl err \<and> exists (Path arg2) w \<longrightarrow>
      main Path argv0 [arg1, arg2] w = (1, w\<lparr>opened := opened w @ [Path arg1]\<rparr>))
   \<and> (files w (Path arg1) = Some (Text content1)
      \<and> files w (Path arg2) = Some e2 \<and> read_text e2 = Inl err \<longrightarrow>
      main Path argv0 [arg1, arg2] w = (1, w\<lparr>opened := opened w @ [Path arg1, Path arg2]\<rparr>))"
proof -
  let ?g1 = "dotdiff_parse_text content1" and ?g2 = "dotdiff_parse_text content2"
  have both: "main Path argv0 [arg1, arg2] w =
      (if fst (compare_graphs ?g1 ?g2) then 0 else 1,
       w\<lparr>opened := opened w @ [Path arg1, Path arg2],
         stdout := stdout w @ [snd (compare_graphs ?g1 ?g2)]\<rparr>)"
    if "files w (Path arg1) = Some (Text content1)" and "files w (Path arg2) = Some (Text content2)"
  proof -
    obtain b s where bs: "compare_graphs ?g1 ?g2 = (b, s)"
      by (cases "compare_graphs ?g1 ?g2")
    from that have ex: "exists (Path arg1) w" "exists (Path arg2) w"
      by (auto simp: exists_def)
    from compare_dot_files_result [OF that] bs ex show ?thesis
      by (simp add: main_def Let_def print_def)
  qed
  have eq: "main Path argv0 [arg1, arg2] w =
        (0, w\<lparr>opened := opened w @ [Path arg1, Path arg2],
               stdout := stdout w @ [''Graphs are structurally identical'']\<rparr>)"
    if "files w (Path arg1) = Some (Text content1)" and "files w (Path arg2) = Some (Text content2)"
      and "graph_nodes ?g1 = graph_nodes ?g2" and "graph_edges ?g1 = graph_edges ?g2"
    using both [OF that(1,2)] compare_graphs_equal [OF that(3,4)] by simp
  have ne: "main Path argv0 [arg1, arg2] w =
        (1, w\<lparr>opened := opened w @ [Path arg1, Path arg2],
               stdout := stdout w @ [snd (compare_graphs ?g1 ?g2)]\<rparr>)"
    if "files w (Path arg1) = Some (Text content1)" and "files w (Path arg2) = Some (Text content2)"
      and "\<not> (graph_nodes ?g1 = graph_nodes ?g2 \<and> graph_edges ?g1 = graph_edges ?g2)"
    using both [OF that(1,2)] that(3) compare_graphs_verdict [of ?g1 ?g2] by simp
  have m1: "main Path argv0 [arg1, arg2] w =
        (1, w\<lparr>stdout := stdout w @ [''Error: Reference file not found: '' @ Path arg1]\<rparr>)"
    if "\<not> exists (Path arg1) w"
    using that by (simp add: main_def Let_def print_def)
  have m2: "main Path argv0 [arg1, arg2] w =
        (1, w\<lparr>stdout := stdout w @ [''Error: Generated file not found: '' @ Path arg2]\<rparr>)"
    if "exists (Path arg1) w" and "\<not> exists (Path arg2) w"
    using that by (simp add: main_def Let_def print_def)
  have x1: "main Path argv0 [arg1, arg2] w = (1, w\<lparr>opened := opened w @ [Path arg1]\<rparr>)"
    if "files w (Path arg1) = Some e1" and "read_text e1 = Inl err" and "exists (Path arg2) w"
  proof -
    from that(1) have "exists (Path arg1) w"
      by (auto simp: exists_def)
    with that(3) compare_dot_files_first_fails [OF that(1,2), of "Path arg2"] show ?thesis
      by (simp add: main_def Let_def)
  qed
  have x2: "main Path argv0 [arg1, arg2] w = (1, w\<lparr>opened := opened w @ [Path arg1, Path arg2]\<rparr>)"
    if "files w (Path arg1) = Some (Text content1)"
      and "files w (Path arg2) = Some e2" and "read_text e2 = Inl err"
  proof -
    from that(1,2) have "exists (Path arg1) w" and "exists (Path arg2) w"
      by (auto simp: exists_def)
    with compare_dot_files_second_fails [OF that] show ?thesis
      by (simp add: main_def Let_def)
  qed
  from eq ne m1 m2 x1 x2 show ?thesis by blast
qed

theorem main_exit_codes_witness:
  "main (\<lambda>arg. arg) ''dotdiff.py'' [''ref.dot'', ''gen.dot''] sample_world =
     (0, sample_world\<lparr>opened := [''ref.dot'', ''gen.dot''],
                      stdout := [''Graphs are structurally identical'']\<rparr>)
   \<and> main (\<lambda>arg. arg) ''dotdiff.py'' [''ref.dot'', ''cand.dot''] sample_world =
     (1, sample_world\<lparr>opened := [''ref.dot'', ''cand.dot''], stdout := [example_report]\<rparr>)
   \<and> main (\<lambda>arg. arg) ''dotdiff.py'' [''missing.dot'', ''gen.dot''] sample_world =
     (1, sample_world\<lparr>stdout := [''Error: Reference file not found: missing.dot'']\<rparr>)
   \<and> main (\<lambda>arg. arg) ''dotdiff.py'' [''out'', ''missing.dot''] sample_world =
     (1, sample_world\<lparr>stdout := [''Error: Generated file not found: missing.dot'']\<rparr>)
   \<and> main (\<lambda>arg. arg) ''dotdiff.py'' [''out'', ''gen.dot''] sample_world =
     (1, sample_world\<lparr>opened := [''out'']\<rparr>)
   \<and> main (\<lambda>arg. arg) ''dotdiff.py'' [''ref.dot'', ''graph.png''] sample_world =
     (1, sample_world\<lparr>opened := [''ref.dot'', ''graph.png'']\<rparr>)"
proof -
  have o: "opened sample_world = []" and s: "stdout sample_world = []"
    by (simp_all add: sample_world_def)
  have ex: "exists ''out'' sample_world" "exists ''gen.dot'' sample_world"
    "\<not> exists ''missing.dot'' sample_world"
    by (simp_all add: exists_def sample_world_def)
  have same: "graph_nodes (dotdiff_parse_text example_text) = graph_nodes (dotdiff_parse_text reordered_text)
      \<and> graph_edges (dotdiff_parse_text example_text) = graph_edges (dotdiff_parse_text reordered_text)"
    by (auto simp: dotdiff_parse_text_sets example_text_nodes example_text_edges
        reordered_text_nodes reordered_text_edges)
  have differ: "\<not> (graph_nodes (dotdiff_parse_text example_text) = graph_nodes (dotdiff_parse_text candidate_text)
      \<and> graph_edges (dotdiff_parse_text example_text) = graph_edges (dotdiff_parse_text candidate_text))"
  proof -
    have "(''foo'', ''foo'') \<in> graph_nodes (dotdiff_parse_text example_text)"
      by (simp add: dotdiff_parse_text_sets example_text_nodes)
    moreover have "(''foo'', ''foo'') \<notin> graph_nodes (dotdiff_parse_text candidate_text)"
      by (simp add: dotdiff_parse_text_sets candidate_text_nodes)
    ultimately show ?thesis by metis
  qed
  from main_exit_codes
    [where w = sample_world and Path = "\<lambda>arg. arg" and ?arg1.0 = "''ref.dot''"
      and ?content1.0 = example_text and ?arg2.0 = "''gen.dot''" and ?content2.0 = reordered_text
      and ?argv0.0 = "''dotdiff.py''"]
    same sample_world_files
  have 1: "main (\<lambda>arg. arg) ''dotdiff.py'' [''ref.dot'', ''gen.dot''] sample_world =
     (0, sample_world\<lparr>opened := [''ref.dot'', ''gen.dot''],
                      stdout := [''Graphs are structurally identical'']\<rparr>)"
    by (simp add: o s)
  from main_exit_codes
    [where w = sample_world and Path = "\<lambda>arg. arg" and ?arg1.0 = "''ref.dot''"
      and ?content1.0 = example_text and ?arg2.0 = "''cand.dot''" and ?content2.0 = candidate_text
      and ?argv0.0 = "''dotdiff.py''"]
    differ sample_world_files
  have 2: "main (\<lambda>arg. arg) ''dotdiff.py'' [''ref.dot'', ''cand.dot''] sample_world =
     (1, sample_world\<lparr>opened := [''ref.dot'', ''cand.dot''], stdout := [example_report]\<rparr>)"
    by (simp add: o s example_report_eval)
  from main_exit_codes
    [where w = sample_world and Path = "\<lambda>arg. arg" and ?arg1.0 = "''missing.dot''"
      and ?arg2.0 = "''gen.dot''" and ?argv0.0 = "''dotdiff.py''"]
    ex
  have 3: "main (\<lambda>arg. arg) ''dotdiff.py'' [''missing.dot'', ''gen.dot''] sample_world =
     (1, sample_world\<lparr>stdout := [''Error: Reference file not found: missing.dot'']\<rparr>)"
    by (simp add: s)
  from main_exit_codes
    [where w = sample_world and Path = "\<lambda>arg. arg" and ?arg1.0 = "''out''"
      and ?arg2.0 = "''missing.dot''" and ?argv0.0 = "''dotdiff.py''"]
    ex
  have 4: "main (\<lambda>arg. arg) ''dotdiff.py'' [''out'', ''missing.dot''] sample_world =
     (1, sample_world\<lparr>stdout := [''Error: Generated file not found: missing.dot'']\<rparr>)"
    by (simp add: s)
  from main_exit_codes
    [where w = sample_world and Path = "\<lambda>arg. arg" and ?arg1.0 = "''out''"
      and ?arg2.0 = "''gen.dot''" and ?argv0.0 = "''dotdiff.py''" and ?e1.0 = Directory
      and err = IsADirectoryError]
    ex sample_world_files
  have 5: "main (\<lambda>arg. arg) ''dotdiff.py'' [''out'', ''gen.dot''] sample_world =
     (1, sample_world\<lparr>opened := [''out'']\<rparr>)"
    by (simp add: o)
  from main_exit_codes
    [where w = sample_world and Path = "\<lambda>arg. arg" and ?arg1.0 = "''ref.dot''"
      and ?content1.0 = example_text and ?arg2.0 = "''graph.png''" and ?argv0.0 = "''dotdiff.py''"
      and ?e2.0 = Undecodable and err = UnicodeDecodeError]
    sample_world_files
  have 6: "main (\<lambda>arg. arg) ''dotdiff.py'' [''ref.dot'', ''graph.png''] sample_world =
     (1, sample_world\<lparr>opened := [''ref.dot'', ''graph.png'']\<rparr>)"
    by (simp add: o)
  from 1 2 3 4 5 6 show ?thesis by blast
qed

subsection \<open>Scanning plain lines\<close>

lemma ident_props:
  assumes "ident s"
  shows "s \<noteq> []" and "quote_free s"
  using assms by (simp_all add: ident_def)

lemma is_space_dquote: "\<not> is_space dquote"
  by (simp add: is_space_def dquote_def)

lemma spaces_quote_free: "spaces ws \<Longrightarrow> quote_free ws"
  using is_space_dquote by (auto simp: spaces_def quote_free_def list_all_iff)

lemma quote_free_append: "quote_free (x @ y) \<longleftrightarrow> quote_free x \<and> quote_free y"
  by (auto simp: quote_free_def)

lemma skip_spaces_spaces: "spaces ws \<Longrightarrow> skip_spaces (ws @ x) = skip_spaces x"
  by (simp add: skip_spaces_def spaces_def list_all_iff dropWhile_append2)

lemma skip_spaces_quote: "skip_spaces (s @ dquote # r) = skip_spaces s @ dquote # r"
  using is_space_dquote by (simp add: skip_spaces_def dropWhile_append3)

lemma quote_free_skip_spaces: "quote_free s \<Longrightarrow> quote_free (skip_spaces s)"
  by (auto simp: quote_free_def skip_spaces_def dest: set_dropWhileD)

lemma skip_spaces_Nil: "skip_spaces [] = []"
  by (simp add: skip_spaces_def)

lemma lit_Nil: "p \<noteq> [] \<Longrightarrow> lit p [] = None"
  by (simp add: lit_def)

lemma lit_Some_iff: "lit p s = Some r \<longleftrightarrow> s = p @ r"
  by (auto simp: lit_def prefix_def)

lemma lit_quote:
  assumes "quote_free p" and "lit p (x @ dquote # r) = Some r2"
  shows "\<exists>x'. x = p @ x' \<and> r2 = x' @ dquote # r"
proof -
  from assms(2) have e: "x @ dquote # r = p @ r2"
    by (simp add: lit_Some_iff)
  then consider us where "x = p @ us" and "us @ dquote # r = r2"
    | us where "x @ us = p" and "dquote # r = us @ r2"
    by (auto simp: append_eq_append_conv2)
  then show ?thesis
  proof cases
    case 1
    then show ?thesis by blast
  next
    case 2
    show ?thesis
    proof (cases us)
      case Nil
      with 2 show ?thesis by simp
    next
      case (Cons u us')
      with 2 have "dquote \<in> set p" by auto
      with assms(1) show ?thesis by (simp add: quote_free_def)
    qed
  qed
qed

lemma quoted_Nil [simp]: "quoted [] = None"
  by (simp add: quoted_def)

lemma quoted_not_quote: "c \<noteq> dquote \<Longrightarrow> quoted (c # s) = None"
  by (simp add: quoted_def)

lemma quoted_quote_free_head:
  assumes "quote_free x" and "x \<noteq> []"
  shows "quoted (x @ r) = None"
  using assms by (cases x) (auto simp: quoted_def quote_free_def)

lemma takeWhile_quote_free:
  "quote_free g \<Longrightarrow> takeWhile not_quote (g @ r) = g @ takeWhile not_quote r"
  by (induction g) (auto simp: quote_free_def not_quote_def)

lemma dropWhile_quote_free:
  "quote_free g \<Longrightarrow> dropWhile not_quote (g @ r) = dropWhile not_quote r"
  by (induction g) (auto simp: quote_free_def not_quote_def)

lemma quoted_group:
  assumes "quote_free g" and "g \<noteq> []"
  shows "quoted (dquote # g @ dquote # r) = Some (g, r)"
  using assms
  by (simp add: quoted_def takeWhile_quote_free dropWhile_quote_free not_quote_def)

lemma match_node_head: "c \<noteq> dquote \<Longrightarrow> match_node (c # s) = None"
  by (simp add: match_node_def quoted_not_quote)

lemma match_edge_head: "c \<noteq> dquote \<Longrightarrow> match_edge (c # s) = None"
  by (simp add: match_edge_def quoted_not_quote)

lemma finditer_node_quote_free:
  "quote_free p \<Longrightarrow> finditer_node (p @ rest) = finditer_node rest"
  by (induction p) (auto simp: quote_free_def match_node_head)

lemma finditer_edge_quote_free:
  "quote_free p \<Longrightarrow> finditer_edge (p @ rest) = finditer_edge rest"
  by (induction p) (auto simp: quote_free_def match_edge_head)

lemma quote_free_literals:
  "quote_free ''->''" "quote_free ''[label=''" "quote_free '']''" "quote_free []"
  by (simp_all add: quote_free_def dquote_def)

lemma safe_Nil: "safe []"
  by (simp add: safe_def skip_spaces_Nil lit_Nil)

lemma safe_ident:
  assumes "ident s"
  shows "safe (s @ dquote # r)"
proof -
  let ?x = "skip_spaces s"
  from assms have qx: "quote_free ?x"
    by (simp add: ident_props quote_free_skip_spaces)
  have sk: "skip_spaces (s @ dquote # r) = ?x @ dquote # r"
    by (rule skip_spaces_quote)
  have 1: "quoted r2 = None" if "lit ''[label='' (?x @ dquote # r) = Some r2" for r2
  proof -
    from lit_quote [OF quote_free_literals(2) that]
    obtain x' where x': "?x = ''[label='' @ x'" and r2: "r2 = x' @ dquote # r"
      by blast
    from x' assms have "x' \<noteq> []"
      by (auto simp: ident_def)
    moreover from qx x' have "quote_free x'"
      by (simp add: quote_free_def)
    ultimately show ?thesis
      unfolding r2 by (rule quoted_quote_free_head [rotated])
  qed
  have 2: "quoted (skip_spaces r2) = None" if "lit ''->'' (?x @ dquote # r) = Some r2" for r2
  proof -
    from lit_quote [OF quote_free_literals(1) that]
    obtain x' where x': "?x = ''->'' @ x'" and r2: "r2 = x' @ dquote # r"
      by blast
    from x' have "lit ''->'' ?x = Some x'"
      by (simp add: lit_Some_iff)
    with assms have ne: "skip_spaces x' \<noteq> []"
      by (simp add: ident_def)
    from qx x' have "quote_free x'"
      by (simp add: quote_free_def)
    then have "quote_free (skip_spaces x')"
      by (rule quote_free_skip_spaces)
    then have "quoted (skip_spaces x' @ dquote # r) = None"
      using ne by (rule quoted_quote_free_head)
    then show ?thesis
      unfolding r2 skip_spaces_quote .
  qed
  show ?thesis
    unfolding safe_def sk using 1 2 by (simp split: option.split)
qed

lemma quoted_calm:
  assumes "quote_free t" and "calm rest"
  shows "quoted (dquote # t @ rest) = None
         \<or> (\<exists>g r. quoted (dquote # t @ rest) = Some (g, r) \<and> safe r)"
proof -
  have d: "dropWhile not_quote (t @ rest) = dropWhile not_quote rest"
    using assms(1) by (rule dropWhile_quote_free)
  have q: "quoted (dquote # t @ rest) =
      (if takeWhile not_quote (t @ rest) = [] then None
       else (case dropWhile not_quote rest of
               [] \<Rightarrow> None
             | _ # r' \<Rightarrow> Some (takeWhile not_quote (t @ rest), r')))"
    unfolding quoted_def d [symmetric] by (simp add: Let_def)
  show ?thesis
  proof (cases "dropWhile not_quote rest")
    case Nil
    show ?thesis unfolding q Nil by simp
  next
    case (Cons x r)
    with assms(2) have "safe r"
      unfolding calm_def by simp
    then show ?thesis unfolding q Cons by simp
  qed
qed

lemma match_node_calm:
  assumes "quote_free t" and "calm rest"
  shows "match_node (dquote # t @ rest) = None"
proof -
  from quoted_calm [OF assms] show ?thesis
  proof (elim disjE exE conjE)
    assume "quoted (dquote # t @ rest) = None"
    then show ?thesis by (simp add: match_node_def)
  next
    fix g r
    assume 2: "quoted (dquote # t @ rest) = Some (g, r)" "safe r"
    show ?thesis
    proof (cases "lit ''[label='' (skip_spaces r)")
      case None
      with 2(1) show ?thesis by (simp add: match_node_def)
    next
      case (Some r2)
      with 2(2) have "quoted r2 = None" by (simp add: safe_def)
      with 2(1) Some show ?thesis by (simp add: match_node_def)
    qed
  qed
qed

lemma match_edge_calm:
  assumes "quote_free t" and "calm rest"
  shows "match_edge (dquote # t @ rest) = None"
proof -
  from quoted_calm [OF assms] show ?thesis
  proof (elim disjE exE conjE)
    assume "quoted (dquote # t @ rest) = None"
    then show ?thesis by (simp add: match_edge_def)
  next
    fix g r
    assume 2: "quoted (dquote # t @ rest) = Some (g, r)" "safe r"
    show ?thesis
    proof (cases "lit ''->'' (skip_spaces r)")
      case None
      with 2(1) show ?thesis by (simp add: match_edge_def)
    next
      case (Some r2)
      with 2(2) have "quoted (skip_spaces r2) = None" by (simp add: safe_def)
      with 2(1) Some show ?thesis by (simp add: match_edge_def)
    qed
  qed
qed

lemma match_node_after:
  assumes "quote_free g" and "g \<noteq> []" and "lit ''[label='' (skip_spaces r) = None"
  shows "match_node (dquote # g @ dquote # r) = None"
  using assms by (simp add: match_node_def quoted_group)

lemma match_edge_after:
  assumes "quote_free g" and "g \<noteq> []" and "lit ''->'' (skip_spaces r) = None"
  shows "match_edge (dquote # g @ dquote # r) = None"
  using assms by (simp add: match_edge_def quoted_group)

lemma quoted_Some_head: "quoted s = Some x \<Longrightarrow> \<exists>t. s = dquote # t"
  by (cases s) (auto simp: quoted_def split: if_splits)

lemma settled_label:
  assumes "settled s" and "lit ''[label='' (skip_spaces s) = Some r2"
    and "quoted r2 = Some (g, r3)"
  shows "lit '']'' r3 = None"
proof -
  from assms(2) have sk: "skip_spaces s = ''[label='' @ r2"
    by (simp add: lit_Some_iff)
  have "s = takeWhile is_space s @ skip_spaces s"
    by (simp add: skip_spaces_def)
  with sk have s: "s = (takeWhile is_space s @ ''[label='') @ r2"
    by simp
  have "spaces (takeWhile is_space s)"
    by (auto simp: spaces_def list_all_iff dest: set_takeWhileD)
  then have "quote_free (takeWhile is_space s @ ''[label='')"
    by (simp add: quote_free_append spaces_quote_free quote_free_literals)
  then have "dropWhile not_quote ((takeWhile is_space s @ ''[label='') @ r2) = dropWhile not_quote r2"
    by (rule dropWhile_quote_free)
  with s have d: "dropWhile not_quote s = dropWhile not_quote r2"
    by simp
  from assms(3) obtain t where "r2 = dquote # t"
    by (blast dest: quoted_Some_head)
  then have "dropWhile not_quote r2 = r2"
    by (simp add: not_quote_def)
  with d assms(1,3) show ?thesis
    by (simp add: settled_def)
qed

lemma match_node_settled:
  assumes "quote_free g" and "g \<noteq> []" and "settled r"
  shows "match_node (dquote # g @ dquote # r) = None"
  using assms(1,2) settled_label [OF assms(3)]
  by (auto simp: match_node_def quoted_group split: option.splits)

lemma skip_spaces_label: "spaces ws \<Longrightarrow> skip_spaces (ws @ ''[label='' @ x) = ''[label='' @ x"
  by (simp add: skip_spaces_spaces) (simp add: skip_spaces_def is_space_def)

lemma skip_spaces_arrow: "spaces ws \<Longrightarrow> skip_spaces (ws @ ''->'' @ x) = ''->'' @ x"
  by (simp add: skip_spaces_spaces) (simp add: skip_spaces_def is_space_def)

lemma skip_spaces_dquote: "spaces ws \<Longrightarrow> skip_spaces (ws @ dquote # x) = dquote # x"
  using skip_spaces_quote [of ws x] skip_spaces_spaces [of ws "[]"]
  by (simp add: skip_spaces_Nil)

lemma match_node_decl:
  assumes "ident i" and "spaces ws" and "ident l"
  shows "match_node (node_decl i ws l @ rest) = Some ((i, l), rest)"
proof -
  let ?R2 = "dquote # l @ dquote # '']'' @ rest"
  have li: "lit ''[label='' (''[label='' @ x) = Some x" for x
    by (simp add: lit_def)
  have rb: "lit '']'' ('']'' @ x) = Some x" for x
    by (simp add: lit_def)
  have q1: "quoted (dquote # i @ dquote # (ws @ ''[label='' @ ?R2)) = Some (i, ws @ ''[label='' @ ?R2)"
    using assms(1) by (intro quoted_group) (simp_all add: ident_props)
  have q2: "quoted (dquote # l @ dquote # ('']'' @ rest)) = Some (l, '']'' @ rest)"
    using assms(3) by (intro quoted_group) (simp_all add: ident_props)
  have "node_decl i ws l @ rest = dquote # i @ dquote # (ws @ ''[label='' @ ?R2)"
    by (simp add: node_decl_def)
  then show ?thesis
    using q1 q2 skip_spaces_label [OF assms(2), of ?R2] li [of ?R2] rb [of rest]
    by (simp add: match_node_def)
qed

lemma match_edge_decl:
  assumes "ident a" and "spaces ws1" and "spaces ws2" and "ident b"
  shows "match_edge (edge_decl a ws1 ws2 b @ rest) = Some ((a, b), rest)"
proof -
  let ?R2 = "dquote # b @ dquote # rest"
  have li: "lit ''->'' (''->'' @ x) = Some x" for x
    by (simp add: lit_def)
  have q1: "quoted (dquote # a @ dquote # (ws1 @ ''->'' @ ws2 @ ?R2)) = Some (a, ws1 @ ''->'' @ ws2 @ ?R2)"
    using assms(1) by (intro quoted_group) (simp_all add: ident_props)
  have q2: "quoted ?R2 = Some (b, rest)"
    using assms(4) by (intro quoted_group) (simp_all add: ident_props)
  have "edge_decl a ws1 ws2 b @ rest = dquote # a @ dquote # (ws1 @ ''->'' @ ws2 @ ?R2)"
    by (simp add: edge_decl_def)
  then show ?thesis
    using q1 q2 skip_spaces_arrow [OF assms(2), of "ws2 @ ?R2"] li [of "ws2 @ ?R2"]
      skip_spaces_dquote [OF assms(3), of "b @ dquote # rest"]
    by (simp add: match_edge_def)
qed

lemma calm_Nil: "calm []"
  by (simp add: calm_def)

lemma calm_quote_free: "quote_free p \<Longrightarrow> calm (p @ r) \<longleftrightarrow> calm r"
  by (simp add: calm_def dropWhile_quote_free)

lemma calm_ident: "ident b \<Longrightarrow> calm (dquote # b @ dquote # r)"
  by (simp add: calm_def not_quote_def safe_ident)

lemma settled_Nil: "settled []"
  by (simp add: settled_def)

lemma settled_quote_free: "quote_free p \<Longrightarrow> settled (p @ r) \<longleftrightarrow> settled r"
  by (simp add: settled_def dropWhile_quote_free)

lemma lit_bracket_spaces:
  assumes "spaces ws" and "c \<noteq> CHR '']''"
  shows "lit '']'' (ws @ c # x) = None"
  using assms by (cases ws) (auto simp: lit_def spaces_def is_space_def)

lemma settled_node_decl:
  assumes "ident i" and "spaces ws"
  shows "settled (node_decl i ws l @ rest)"
proof -
  obtain X where X: "node_decl i ws l @ rest = dquote # i @ dquote # (ws @ CHR ''['' # X)"
    by (simp add: node_decl_def)
  have "quoted (dquote # i @ dquote # (ws @ CHR ''['' # X)) = Some (i, ws @ CHR ''['' # X)"
    using assms(1) by (intro quoted_group) (simp_all add: ident_props)
  moreover have "lit '']'' (ws @ CHR ''['' # X) = None"
    using assms(2) by (rule lit_bracket_spaces) simp
  ultimately show ?thesis
    unfolding X settled_def by (simp add: not_quote_def)
qed

lemma settled_edge_decl:
  assumes "ident a" and "spaces ws1"
  shows "settled (edge_decl a ws1 ws2 b @ rest)"
proof -
  obtain X where X: "edge_decl a ws1 ws2 b @ rest = dquote # a @ dquote # (ws1 @ CHR ''-'' # X)"
    by (simp add: edge_decl_def)
  have "quoted (dquote # a @ dquote # (ws1 @ CHR ''-'' # X)) = Some (a, ws1 @ CHR ''-'' # X)"
    using assms(1) by (intro quoted_group) (simp_all add: ident_props)
  moreover have "lit '']'' (ws1 @ CHR ''-'' # X) = None"
    using assms(2) by (rule lit_bracket_spaces) simp
  ultimately show ?thesis
    unfolding X settled_def by (simp add: not_quote_def)
qed

lemma finditer_node_fail:
  "match_node (c # s) = None \<Longrightarrow> finditer_node (c # s) = finditer_node s"
  by simp

lemma finditer_edge_fail:
  "match_edge (c # s) = None \<Longrightarrow> finditer_edge (c # s) = finditer_edge s"
  by simp

lemma finditer_node_node_decl:
  assumes "ident i" and "spaces ws" and "ident l"
  shows "finditer_node (node_decl i ws l @ rest) = (i, l) # finditer_node rest"
proof -
  obtain X where X: "node_decl i ws l @ rest = dquote # X"
    by (simp add: node_decl_def)
  from match_node_decl [OF assms, of rest] have "match_node (dquote # X) = Some ((i, l), rest)"
    by (simp add: X)
  then have "finditer_node (dquote # X) = (i, l) # finditer_node rest"
    by simp
  then show ?thesis by (simp add: X)
qed

lemma finditer_edge_edge_decl:
  assumes "ident a" and "spaces ws1" and "spaces ws2" and "ident b"
  shows "finditer_edge (edge_decl a ws1 ws2 b @ rest) = (a, b) # finditer_edge rest"
proof -
  obtain X where X: "edge_decl a ws1 ws2 b @ rest = dquote # X"
    by (simp add: edge_decl_def)
  from match_edge_decl [OF assms, of rest] have "match_edge (dquote # X) = Some ((a, b), rest)"
    by (simp add: X)
  then have "finditer_edge (dquote # X) = (a, b) # finditer_edge rest"
    by simp
  then show ?thesis by (simp add: X)
qed

lemma finditer_node_edge_decl:
  assumes "ident a" and "spaces ws1" and "spaces ws2" and "ident b"
    and "calm rest" and "settled rest"
  shows "finditer_node (edge_decl a ws1 ws2 b @ rest) = finditer_node rest"
proof -
  let ?R3 = "dquote # rest"
  let ?R2 = "dquote # b @ ?R3"
  let ?t = "ws1 @ ''->'' @ ws2"
  let ?R1 = "dquote # ?t @ ?R2"
  have e: "edge_decl a ws1 ws2 b @ rest = dquote # a @ ?R1"
    by (simp add: edge_decl_def)
  have t: "quote_free ?t"
    using spaces_quote_free [OF assms(2)] spaces_quote_free [OF assms(3)]
    by (simp add: quote_free_def dquote_def)
  have "skip_spaces (ws1 @ ''->'' @ ws2 @ ?R2) = ''->'' @ ws2 @ ?R2"
    using assms(2) by (rule skip_spaces_arrow)
  then have "lit ''[label='' (skip_spaces (?t @ ?R2)) = None"
    by (simp add: lit_def)
  with assms(1) have "match_node (dquote # a @ dquote # ?t @ ?R2) = None"
    by (intro match_node_after) (simp_all add: ident_props)
  then have 1: "finditer_node (dquote # a @ ?R1) = finditer_node (a @ ?R1)"
    by (rule finditer_node_fail)
  have 2: "finditer_node (a @ ?R1) = finditer_node ?R1"
    using assms(1) by (intro finditer_node_quote_free) (simp add: ident_props)
  have "match_node (dquote # ?t @ ?R2) = None"
    using t calm_ident [OF assms(4)] by (rule match_node_calm)
  then have 3: "finditer_node ?R1 = finditer_node (?t @ ?R2)"
    by (rule finditer_node_fail)
  have 4: "finditer_node (?t @ ?R2) = finditer_node ?R2"
    using t by (rule finditer_node_quote_free)
  have "match_node (dquote # b @ dquote # rest) = None"
    using assms(4,6) by (intro match_node_settled) (simp_all add: ident_props)
  then have 5: "finditer_node ?R2 = finditer_node (b @ ?R3)"
    by (rule finditer_node_fail)
  have 6: "finditer_node (b @ ?R3) = finditer_node ?R3"
    using assms(4) by (intro finditer_node_quote_free) (simp add: ident_props)
  have "match_node (dquote # [] @ rest) = None"
    using quote_free_literals(4) assms(5) by (rule match_node_calm)
  then have "match_node (dquote # rest) = None"
    by simp
  then have 7: "finditer_node ?R3 = finditer_node rest"
    by (rule finditer_node_fail)
  show ?thesis
    unfolding e 1 2 3 4 5 6 7 ..
qed

lemma finditer_edge_node_decl:
  assumes "ident i" and "spaces ws" and "ident l" and "calm rest"
  shows "finditer_edge (node_decl i ws l @ rest) = finditer_edge rest"
proof -
  let ?R3 = "dquote # '']'' @ rest"
  let ?R2 = "dquote # l @ ?R3"
  let ?t = "ws @ ''[label=''"
  let ?R1 = "dquote # ?t @ ?R2"
  have e: "node_decl i ws l @ rest = dquote # i @ ?R1"
    by (simp add: node_decl_def)
  have t: "quote_free ?t"
    using spaces_quote_free [OF assms(2)] by (simp add: quote_free_def dquote_def)
  have "skip_spaces (ws @ ''[label='' @ ?R2) = ''[label='' @ ?R2"
    using assms(2) by (rule skip_spaces_label)
  then have "lit ''->'' (skip_spaces (?t @ ?R2)) = None"
    by (simp add: lit_def)
  with assms(1) have "match_edge (dquote # i @ dquote # ?t @ ?R2) = None"
    by (intro match_edge_after) (simp_all add: ident_props)
  then have 1: "finditer_edge (dquote # i @ ?R1) = finditer_edge (i @ ?R1)"
    by (rule finditer_edge_fail)
  have 2: "finditer_edge (i @ ?R1) = finditer_edge ?R1"
    using assms(1) by (intro finditer_edge_quote_free) (simp add: ident_props)
  have "match_edge (dquote # ?t @ ?R2) = None"
    using t calm_ident [OF assms(3)] by (rule match_edge_calm)
  then have 3: "finditer_edge ?R1 = finditer_edge (?t @ ?R2)"
    by (rule finditer_edge_fail)
  have 4: "finditer_edge (?t @ ?R2) = finditer_edge ?R2"
    using t by (rule finditer_edge_quote_free)
  have "lit ''->'' (skip_spaces ('']'' @ rest)) = None"
    by (simp add: skip_spaces_def is_space_def lit_def)
  with assms(3) have "match_edge (dquote # l @ dquote # '']'' @ rest) = None"
    by (intro match_edge_after) (simp_all add: ident_props)
  then have 5: "finditer_edge ?R2 = finditer_edge (l @ ?R3)"
    by (rule finditer_edge_fail)
  have 6: "finditer_edge (l @ ?R3) = finditer_edge ?R3"
    using assms(3) by (intro finditer_edge_quote_free) (simp add: ident_props)
  have "match_edge (dquote # '']'' @ rest) = None"
    using quote_free_literals(3) assms(4) by (rule match_edge_calm)
  then have 7: "finditer_edge ?R3 = finditer_edge ('']'' @ rest)"
    by (rule finditer_edge_fail)
  have 8: "finditer_edge ('']'' @ rest) = finditer_edge rest"
    by (rule finditer_edge_quote_free) (rule quote_free_literals)
  show ?thesis
    unfolding e 1 2 3 4 5 6 7 8 ..
qed

lemma quote_free_nl: "quote_free nl"
  by (simp add: quote_free_def nl_def dquote_def)

lemma calm_line:
  assumes "plain_line ln" and "calm rest"
  shows "calm (render ln @ rest)"
proof (cases ln)
  case (Node_line pre i ws l post)
  obtain X where X: "node_decl i ws l @ post @ rest = dquote # i @ dquote # X"
    by (simp add: node_decl_def)
  from Node_line assms(1) have "quote_free pre" and "ident i" by simp_all
  then show ?thesis
    using calm_ident [of i X] by (simp add: Node_line calm_quote_free X)
next
  case (Edge_line pre a ws1 ws2 b post)
  obtain X where X: "edge_decl a ws1 ws2 b @ post @ rest = dquote # a @ dquote # X"
    by (simp add: edge_decl_def)
  from Edge_line assms(1) have "quote_free pre" and "ident a" by simp_all
  then show ?thesis
    using calm_ident [of a X] by (simp add: Edge_line calm_quote_free X)
next
  case (Other_line s)
  with assms show ?thesis
    by (simp add: calm_quote_free)
qed

lemma settled_line:
  assumes "plain_line ln" and "settled rest"
  shows "settled (render ln @ rest)"
proof (cases ln)
  case (Node_line pre i ws l post)
  from Node_line assms(1) have "quote_free pre" and "ident i" and "spaces ws" by simp_all
  then show ?thesis
    using settled_node_decl [of i ws l "post @ rest"] by (simp add: Node_line settled_quote_free)
next
  case (Edge_line pre a ws1 ws2 b post)
  from Edge_line assms(1) have "quote_free pre" and "ident a" and "spaces ws1" by simp_all
  then show ?thesis
    using settled_edge_decl [of a ws1 ws2 b "post @ rest"]
    by (simp add: Edge_line settled_quote_free)
next
  case (Other_line s)
  with assms show ?thesis
    by (simp add: settled_quote_free)
qed

lemma finditer_node_line:
  assumes "plain_line ln" and "calm rest" and "settled rest"
  shows "finditer_node (render ln @ rest) = nodes_of_line ln @ finditer_node rest"
proof (cases ln)
  case (Node_line pre i ws l post)
  with assms(1) have p: "quote_free pre" "ident i" "spaces ws" "ident l" "quote_free post"
    by simp_all
  have "finditer_node (pre @ node_decl i ws l @ post @ rest) = finditer_node (node_decl i ws l @ post @ rest)"
    using p(1) by (rule finditer_node_quote_free)
  also have "\<dots> = (i, l) # finditer_node (post @ rest)"
    using p(2,3,4) by (rule finditer_node_node_decl)
  also have "finditer_node (post @ rest) = finditer_node rest"
    using p(5) by (rule finditer_node_quote_free)
  finally show ?thesis by (simp add: Node_line)
next
  case (Edge_line pre a ws1 ws2 b post)
  with assms(1) have p: "quote_free pre" "ident a" "spaces ws1" "spaces ws2" "ident b" "quote_free post"
    by simp_all
  from p(6) assms(2) have c: "calm (post @ rest)"
    by (simp add: calm_quote_free)
  from p(6) assms(3) have s: "settled (post @ rest)"
    by (simp add: settled_quote_free)
  have "finditer_node (pre @ edge_decl a ws1 ws2 b @ post @ rest) = finditer_node (edge_decl a ws1 ws2 b @ post @ rest)"
    using p(1) by (rule finditer_node_quote_free)
  also have "\<dots> = finditer_node (post @ rest)"
    using p(2,3,4,5) c s by (rule finditer_node_edge_decl)
  also have "\<dots> = finditer_node rest"
    using p(6) by (rule finditer_node_quote_free)
  finally show ?thesis by (simp add: Edge_line)
next
  case (Other_line s)
  with assms(1) show ?thesis
    by (simp add: finditer_node_quote_free)
qed

lemma finditer_edge_line:
  assumes "plain_line ln" and "calm rest"
  shows "finditer_edge (render ln @ rest) = edges_of_line ln @ finditer_edge rest"
proof (cases ln)
  case (Node_line pre i ws l post)
  with assms(1) have p: "quote_free pre" "ident i" "spaces ws" "ident l" "quote_free post"
    by simp_all
  from p(5) assms(2) have c: "calm (post @ rest)"
    by (simp add: calm_quote_free)
  have "finditer_edge (pre @ node_decl i ws l @ post @ rest) = finditer_edge (node_decl i ws l @ post @ rest)"
    using p(1) by (rule finditer_edge_quote_free)
  also have "\<dots> = finditer_edge (post @ rest)"
    using p(2,3,4) c by (rule finditer_edge_node_decl)
  also have "\<dots> = finditer_edge rest"
    using p(5) by (rule finditer_edge_quote_free)
  finally show ?thesis by (simp add: Node_line)
next
  case (Edge_line pre a ws1 ws2 b post)
  with assms(1) have p: "quote_free pre" "ident a" "spaces ws1" "spaces ws2" "ident b" "quote_free post"
    by simp_all
  have "finditer_edge (pre @ edge_decl a ws1 ws2 b @ post @ rest) = finditer_edge (edge_decl a ws1 ws2 b @ post @ rest)"
    using p(1) by (rule finditer_edge_quote_free)
  also have "\<dots> = (a, b) # finditer_edge (post @ rest)"
    using p(2,3,4,5) by (rule finditer_edge_edge_decl)
  also have "finditer_edge (post @ rest) = finditer_edge rest"
    using p(6) by (rule finditer_edge_quote_free)
  finally show ?thesis by (simp add: Edge_line)
next
  case (Other_line s)
  with assms(1) show ?thesis
    by (simp add: finditer_edge_quote_free)
qed

lemma calm_text:
  "list_all plain_line ls \<Longrightarrow> calm (join nl (map render ls))"
proof (induction ls rule: induct_list012)
  case 1
  show ?case by (simp add: calm_Nil)
next
  case (2 x)
  then show ?case
    using calm_line [of x "[]"] by (simp add: calm_Nil)
next
  case (3 x y zs)
  from 3 have "calm (join nl (map render (y # zs)))" by simp
  then have "calm (nl @ join nl (map render (y # zs)))"
    by (simp add: calm_quote_free quote_free_nl)
  with 3(3) show ?case
    using calm_line [of x "nl @ join nl (map render (y # zs))"] by simp
qed

lemma settled_text:
  "list_all plain_line ls \<Longrightarrow> settled (join nl (map render ls))"
proof (induction ls rule: induct_list012)
  case 1
  show ?case by (simp add: settled_Nil)
next
  case (2 x)
  then show ?case
    using settled_line [of x "[]"] by (simp add: settled_Nil)
next
  case (3 x y zs)
  from 3 have "settled (join nl (map render (y # zs)))" by simp
  then have "settled (nl @ join nl (map render (y # zs)))"
    by (simp add: settled_quote_free quote_free_nl)
  with 3(3) show ?case
    using settled_line [of x "nl @ join nl (map render (y # zs))"] by simp
qed

lemma finditer_node_text:
  "list_all plain_line ls \<Longrightarrow>
     finditer_node (join nl (map render ls)) = concat (map nodes_of_line ls)"
proof (induction ls rule: induct_list012)
  case 1
  show ?case by simp
next
  case (2 x)
  then show ?case
    using finditer_node_line [of x "[]"] by (simp add: calm_Nil settled_Nil)
next
  case (3 x y zs)
  let ?rest = "join nl (map render (y # zs))"
  from 3(3) have pl: "plain_line x" and tl: "list_all plain_line (y # zs)" by simp_all
  from tl have "calm ?rest" by (rule calm_text)
  then have c: "calm (nl @ ?rest)"
    by (simp add: calm_quote_free quote_free_nl)
  from tl have "settled ?rest" by (rule settled_text)
  then have s: "settled (nl @ ?rest)"
    by (simp add: settled_quote_free quote_free_nl)
  have "finditer_node (render x @ nl @ ?rest) = nodes_of_line x @ finditer_node (nl @ ?rest)"
    using pl c s by (rule finditer_node_line)
  also have "finditer_node (nl @ ?rest) = finditer_node ?rest"
    by (rule finditer_node_quote_free) (rule quote_free_nl)
  also have "\<dots> = concat (map nodes_of_line (y # zs))"
    using tl by (rule 3(2))
  finally show ?case by simp
qed

lemma finditer_edge_text:
  "list_all plain_line ls \<Longrightarrow>
     finditer_edge (join nl (map render ls)) = concat (map edges_of_line ls)"
proof (induction ls rule: induct_list012)
  case 1
  show ?case by simp
next
  case (2 x)
  then show ?case
    using finditer_edge_line [of x "[]"] by (simp add: calm_Nil)
next
  case (3 x y zs)
  let ?rest = "join nl (map render (y # zs))"
  from 3(3) have pl: "plain_line x" and tl: "list_all plain_line (y # zs)" by simp_all
  from tl have "calm ?rest" by (rule calm_text)
  then have c: "calm (nl @ ?rest)"
    by (simp add: calm_quote_free quote_free_nl)
  have "finditer_edge (render x @ nl @ ?rest) = edges_of_line x @ finditer_edge (nl @ ?rest)"
    using pl c by (rule finditer_edge_line)
  also have "finditer_edge (nl @ ?rest) = finditer_edge ?rest"
    by (rule finditer_edge_quote_free) (rule quote_free_nl)
  also have "\<dots> = concat (map edges_of_line (y # zs))"
    using tl by (rule 3(2))
  finally show ?case by simp
qed

lemma parse_plain_text:
  assumes "list_all plain_line ls"
  shows "dotdiff_parse_text (join nl (map render ls)) =
           \<lparr>graph_nodes = set (concat (map nodes_of_line ls)),
            graph_edges = set (concat (map edges_of_line ls))\<rparr>"
  using assms by (simp add: dotdiff_parse_text_sets finditer_node_text finditer_edge_text)


lemma split_lines_nodes:
  "finditer_node (join nl split_lines) = [(''a'', ''x'')]"
  "finditer_node (join nl (rev split_lines)) = []"
  by code_simp+

lemma arrow_label_lines_edges:
  "finditer_edge (join nl arrow_label_lines) = [('' [label='', '']'' @ nl)]"
  "finditer_edge (join nl (rev arrow_label_lines)) = [(''a'', ''b'')]"
  by code_simp+

lemma label_target_lines_nodes:
  "finditer_node (join nl label_target_lines) = [('' -> '', nl)]"
  "finditer_node (join nl (rev label_target_lines)) = [('']x'', ''y'')]"
  by code_simp+

lemma arrow_decl_scans:
  "finditer_node (join nl [arrow_decl]) = [(''i'', ''->'')]"
  "finditer_edge (join nl [arrow_decl]) = []"
  "finditer_node (join nl [arrow_decl, arrow_decl]) = [(''i'', ''->''), (''i'', ''->'')]"
  "finditer_edge (join nl [arrow_decl, arrow_decl]) = [('' [label='', '']'' @ nl)]"
  by code_simp+

lemma sample_lines_render:
  "map render sample_lines =
     [''digraph callgraph {'',
      ''\"foo\" [label=\"foo\"]'',
      ''  \"bar\"[label=\"bar\"];'',
      ''\"foo\" -> \"bar\"'',
      CHR 0x09 # ''\"bar\"->'' @ CHR 0x09 # ''\"-x\";'',
      ''}'']"
  by (simp add: sample_lines_def node_decl_def edge_decl_def dquote_def)

lemma sample_lines_plain: "list_all plain_line sample_lines"
  by (simp add: sample_lines_def ident_def spaces_def quote_free_def dquote_def is_space_def
      skip_spaces_def lit_def)

lemma sample_lines_pairs:
  "set (concat (map nodes_of_line sample_lines)) = {(''foo'', ''foo''), (''bar'', ''bar'')}"
  "set (concat (map edges_of_line sample_lines)) = {(''foo'', ''bar''), (''bar'', ''-x'')}"
  by (simp_all add: sample_lines_def)


subsection \<open>Permuting the lines of a file\<close>

text \<open>
  Claim C7, as stated, fails. The two lines \<^verbatim>\<open>"a"\<close> and \<^verbatim>\<open>[label="x"]\<close> declare a node in this
  order, since the whitespace between id and bracket may be a newline, and declare
  none in the other order: the two files have the same lines and different node sets.
\<close>

theorem line_order_counterexample:
  "mset (rev split_lines) = mset split_lines
   \<and> graph_nodes (dotdiff_parse_text (join nl split_lines)) = {(''a'', ''x'')}
   \<and> graph_nodes (dotdiff_parse_text (join nl (rev split_lines))) = {}"
  by (simp add: dotdiff_parse_text_sets split_lines_nodes)


text \<open>
  Declarations that are each on one line interfere as well, when a label is an arrow or a
  target is the text \<^verbatim>\<open>[label=\<close>: the scanner then reads the text between two declarations
  as a quoted group.
\<close>

lemma declaration_lines_interfere:
  "mset (rev arrow_label_lines) = mset arrow_label_lines
   \<and> graph_edges (dotdiff_parse_text (join nl arrow_label_lines)) = {('' [label='', '']'' @ nl)}
   \<and> graph_edges (dotdiff_parse_text (join nl (rev arrow_label_lines))) = {(''a'', ''b'')}"
  by (simp add: dotdiff_parse_text_sets arrow_label_lines_edges)

lemma label_target_lines_interfere:
  "mset (rev label_target_lines) = mset label_target_lines
   \<and> graph_nodes (dotdiff_parse_text (join nl label_target_lines)) = {('' -> '', nl)}
   \<and> graph_nodes (dotdiff_parse_text (join nl (rev label_target_lines))) = {('']x'', ''y'')}"
  by (simp add: dotdiff_parse_text_sets label_target_lines_nodes)


text \<open>
  Claim C7, amended. When every line of the file is plain, the extracted graph is the set
  of the node declarations and the set of the edge declarations of the lines, and every
  permutation of the lines gives the same graph.
\<close>

theorem line_order_independence:
  assumes "list_all plain_line ls" and "mset ls' = mset ls"
  shows "dotdiff_parse_text (join nl (map render ls)) =
           \<lparr>graph_nodes = set (concat (map nodes_of_line ls)),
            graph_edges = set (concat (map edges_of_line ls))\<rparr>
         \<and> dotdiff_parse_text (join nl (map render ls')) =
             dotdiff_parse_text (join nl (map render ls))"
proof -
  from assms(2) have s: "set ls' = set ls"
    by (rule mset_eq_setD)
  with assms(1) have pl': "list_all plain_line ls'"
    by (simp add: list_all_iff)
  from s have "set (concat (map nodes_of_line ls')) = set (concat (map nodes_of_line ls))"
    and "set (concat (map edges_of_line ls')) = set (concat (map edges_of_line ls))"
    by simp_all
  with parse_plain_text [OF assms(1)] parse_plain_text [OF pl'] show ?thesis by simp
qed

theorem line_order_independence_witness:
  "map render sample_lines =
     [''digraph callgraph {'',
      ''\"foo\" [label=\"foo\"]'',
      ''  \"bar\"[label=\"bar\"];'',
      ''\"foo\" -> \"bar\"'',
      CHR 0x09 # ''\"bar\"->'' @ CHR 0x09 # ''\"-x\";'',
      ''}'']
   \<and> dotdiff_parse_text (join nl (map render sample_lines)) =
     \<lparr>graph_nodes = {(''foo'', ''foo''), (''bar'', ''bar'')},
      graph_edges = {(''foo'', ''bar''), (''bar'', ''-x'')}\<rparr>
   \<and> dotdiff_parse_text (join nl (map render (rev sample_lines))) =
       dotdiff_parse_text (join nl (map render sample_lines))"
proof -
  have m: "mset (rev sample_lines) = mset sample_lines"
    by simp
  from line_order_independence [OF sample_lines_plain m] sample_lines_render show ?thesis
    unfolding sample_lines_pairs by blast
qed


subsection \<open>The verdict of the comparator\<close>

text \<open>
  Claim C1, as stated, fails in its second half. The verdict depends on the order of the
  declarations: the node declaration with the label \<^verbatim>\<open>->\<close> followed by an edge declaration,
  compared with the same two lines in the other order, is found unequal. It depends on the
  number of repetitions: the same node declaration written once, compared with the file
  that holds it twice, is found unequal.
\<close>

theorem verdict_depends_on_text:
  "\<not> fst (compare_graphs (dotdiff_parse_text (join nl arrow_label_lines))
                          (dotdiff_parse_text (join nl (rev arrow_label_lines))))
   \<and> \<not> fst (compare_graphs (dotdiff_parse_text (join nl [arrow_decl]))
                            (dotdiff_parse_text (join nl [arrow_decl, arrow_decl])))"
proof -
  have 1: "graph_edges (dotdiff_parse_text (join nl arrow_label_lines))
      \<noteq> graph_edges (dotdiff_parse_text (join nl (rev arrow_label_lines)))"
    unfolding dotdiff_parse_text_sets arrow_label_lines_edges by simp
  have 2: "graph_edges (dotdiff_parse_text (join nl [arrow_decl]))
      \<noteq> graph_edges (dotdiff_parse_text (join nl [arrow_decl, arrow_decl]))"
    unfolding dotdiff_parse_text_sets arrow_decl_scans by simp
  from 1 2 show ?thesis
    unfolding compare_graphs_verdict by simp
qed


text \<open>
  Claim C1, amended. The verdict of the comparator is true exactly when the two node sets
  are equal and the two edge sets are equal. For two readable files the verdict is the
  equality of the sets of matches of the node pattern and of the edge pattern in their
  texts. For inputs made of plain lines the result of the comparison, verdict and report,
  depends on neither the order nor the number of repetitions of the lines, and so of the
  declarations, in either input.
\<close>

theorem verdict_iff_sets_equal:
  "(fst (compare_graphs graph1 graph2) \<longleftrightarrow>
      graph_nodes graph1 = graph_nodes graph2 \<and> graph_edges graph1 = graph_edges graph2)
   \<and> (files w file1 = Some (Text content1) \<and> files w file2 = Some (Text content2) \<longrightarrow>
        (\<exists>summary. fst (compare_dot_files file1 file2 w) =
           Inr (set (finditer_node content1) = set (finditer_node content2)
                \<and> set (finditer_edge content1) = set (finditer_edge content2), summary)))
   \<and> (list_all plain_line ls1 \<and> list_all plain_line ls2
      \<and> set ls1' = set ls1 \<and> set ls2' = set ls2 \<longrightarrow>
        compare_graphs (dotdiff_parse_text (join nl (map render ls1')))
                       (dotdiff_parse_text (join nl (map render ls2')))
        = compare_graphs (dotdiff_parse_text (join nl (map render ls1)))
                         (dotdiff_parse_text (join nl (map render ls2))))"
proof -
  have v: "fst (compare_graphs (dotdiff_parse_text c1) (dotdiff_parse_text c2)) \<longleftrightarrow>
      set (finditer_node c1) = set (finditer_node c2)
      \<and> set (finditer_edge c1) = set (finditer_edge c2)" for c1 c2
    by (simp add: compare_graphs_verdict dotdiff_parse_text_sets)
  have "\<exists>summary. fst (compare_dot_files file1 file2 w) =
           Inr (set (finditer_node content1) = set (finditer_node content2)
                \<and> set (finditer_edge content1) = set (finditer_edge content2), summary)"
    if "files w file1 = Some (Text content1)" and "files w file2 = Some (Text content2)"
  proof -
    obtain b s where bs: "compare_graphs (dotdiff_parse_text content1) (dotdiff_parse_text content2) = (b, s)"
      by (cases "compare_graphs (dotdiff_parse_text content1) (dotdiff_parse_text content2)")
    with v [of content1 content2] have "b \<longleftrightarrow> set (finditer_node content1) = set (finditer_node content2)
                \<and> set (finditer_edge content1) = set (finditer_edge content2)"
      by simp
    with bs compare_dot_files_result [OF that] show ?thesis
      by simp
  qed
  moreover have "compare_graphs (dotdiff_parse_text (join nl (map render ls1')))
                       (dotdiff_parse_text (join nl (map render ls2')))
        = compare_graphs (dotdiff_parse_text (join nl (map render ls1)))
                         (dotdiff_parse_text (join nl (map render ls2)))"
    if p1: "list_all plain_line ls1" and p2: "list_all plain_line ls2"
      and s1: "set ls1' = set ls1" and s2: "set ls2' = set ls2"
  proof -
    have same: "dotdiff_parse_text (join nl (map render xs')) =
        dotdiff_parse_text (join nl (map render xs))"
      if "list_all plain_line xs" and "set xs' = set xs" for xs xs'
    proof -
      from that have "list_all plain_line xs'"
        by (simp add: list_all_iff)
      with that show ?thesis
        by (simp add: parse_plain_text)
    qed
    from same [OF p1 s1] same [OF p2 s2] show ?thesis
      by simp
  qed
  ultimately show ?thesis
    using compare_graphs_verdict [of graph1 graph2] by blast
qed


theorem verdict_iff_sets_equal_witness:
  "(\<exists>summary. fst (compare_dot_files ''ref.dot'' ''gen.dot''
        \<lparr>files = [''ref.dot'' \<mapsto> Text example_text, ''gen.dot'' \<mapsto> Text reordered_text],
          opened = [], stdout = []\<rparr>) = Inr (True, summary))
   \<and> compare_graphs (dotdiff_parse_text (join nl (map render (rev sample_lines @ sample_lines))))
                    (dotdiff_parse_text (join nl (map render (rev sample_lines))))
     = compare_graphs (dotdiff_parse_text (join nl (map render sample_lines)))
                      (dotdiff_parse_text (join nl (map render sample_lines)))"
proof -
  let ?w = "\<lparr>files = [''ref.dot'' \<mapsto> Text example_text, ''gen.dot'' \<mapsto> Text reordered_text],
          opened = [], stdout = []\<rparr>"
  have f: "files ?w ''ref.dot'' = Some (Text example_text)
      \<and> files ?w ''gen.dot'' = Some (Text reordered_text)"
    by simp
  have n: "set (finditer_node example_text) = set (finditer_node reordered_text)"
    by (auto simp: reordered_text_nodes example_text_nodes)
  have e: "set (finditer_edge example_text) = set (finditer_edge reordered_text)"
    by (auto simp: reordered_text_edges example_text_edges)
  have s: "list_all plain_line sample_lines \<and> list_all plain_line sample_lines
      \<and> set (rev sample_lines @ sample_lines) = set sample_lines
      \<and> set (rev sample_lines) = set sample_lines"
    using sample_lines_plain by simp
  note t = verdict_iff_sets_equal
    [where w = ?w and ?file1.0 = "''ref.dot''" and ?content1.0 = example_text
      and ?file2.0 = "''gen.dot''" and ?content2.0 = reordered_text
      and ?ls1.0 = sample_lines and ?ls2.0 = sample_lines
      and ls1' = "rev sample_lines @ sample_lines" and ls2' = "rev sample_lines"]
  from t [THEN conjunct2, THEN conjunct1, THEN mp, OF f] n e
  have a: "\<exists>summary. fst (compare_dot_files ''ref.dot'' ''gen.dot'' ?w) = Inr (True, summary)"
    by simp
  from a t [THEN conjunct2, THEN conjunct2, THEN mp, OF s] show ?thesis
    by (rule conjI)
qed

end
